theory Spec2Isabelle
  imports Main "HOL-Library.Word" "HOL-Library.AList"
begin

section \<open>Data model of the project package\<close>

text \<open>
  Go's \<^verbatim>\<open>error\<close> values, told apart by where they come from: the NotFound error of
  the walmerr package (the only one \<^verbatim>\<open>IsNotFoundError\<close> recognises), an error
  built in this package by \<^verbatim>\<open>errors.New\<close> or \<^verbatim>\<open>fmt.Errorf\<close> (its message), any
  other error handed back by a collaborator (store, broker, chart runtime), and a
  runtime panic, which is no error value in Go but ends the call all the same.
\<close>

datatype error =
    NotFoundError
  | Errorf string
  | Collaborator string
  | RuntimePanic string

definition IsNotFoundError :: "error \<Rightarrow> bool" where
  "IsNotFoundError e = (e = NotFoundError)"

record task_signature =
  sig_Name :: string
  sig_UUID :: string

text \<open>
  Modelled from the spec: the task package (WalmTaskState and its predicates) is not
  among the sources. The spec gives the state as one of pending, running, success,
  failure, and IsSuccess / IsFailure as the predicates on it.
\<close>

datatype task_status = Pending | Running | Success | Failure

record task_state =
  ts_TaskUUID :: string
  ts_TaskName :: string
  ts_Error :: string
  ts_CreatedAt :: int
  ts_State :: task_status

definition IsSuccess :: "task_state \<Rightarrow> bool" where
  "IsSuccess s = (ts_State s = Success)"

definition IsFailure :: "task_state \<Rightarrow> bool" where
  "IsFailure s = (ts_State s = Failure)"

record project_cache =
  pc_Namespace :: string
  pc_Name :: string
  pc_LatestTaskSignature :: task_signature
  pc_LatestTaskTimeoutSec :: "64 word"

text \<open>
  A Go \<^verbatim>\<open>map[string]string\<close> is an association list in some iteration order, read
  with \<^const>\<open>map_of\<close>, written with \<^const>\<open>AList.update\<close>; the nil map is \<open>None\<close>.
  Reading a nil map finds nothing, writing to it panics.
\<close>

type_synonym gomap = "(string \<times> string) list option"

definition lookup :: "gomap \<Rightarrow> string \<Rightarrow> string option" where
  "lookup m k = (case m of None \<Rightarrow> None | Some al \<Rightarrow> map_of al k)"

definition hasKey :: "gomap \<Rightarrow> string \<Rightarrow> bool" where
  "hasKey m k = (lookup m k \<noteq> None)"

text \<open>The values a \<^verbatim>\<open>range\<close> loop over the map sees: one per key.\<close>

definition mapValues :: "gomap \<Rightarrow> string list" where
  "mapValues m = (case m of None \<Rightarrow> [] | Some al \<Rightarrow> map snd (AList.clearjunk al))"

record release_request =
  rq_Name :: string
  rq_RepoName :: string
  rq_ChartName :: string
  rq_ChartVersion :: string
  rq_Dependencies :: gomap

record release_info =
  ri_Name :: string
  ri_RepoName :: string
  ri_ChartName :: string
  ri_ChartVersion :: string
  ri_Dependencies :: gomap
  ri_Ready :: bool
  ri_Message :: string

record project_params =
  pp_Releases :: "release_request list"

record project_info =
  pi_ProjectCache :: project_cache
  pi_Releases :: "release_info list"
  pi_LatestTaskState :: "task_state option"
  pi_Ready :: bool
  pi_Message :: string

datatype task_args =
    CreateProjectTaskArgs string string project_params
  | DeleteProjectTaskArgs string string bool
  | AddReleaseTaskArgs string string project_params
  | UpgradeReleaseTaskArgs string string release_request
  | RemoveReleaseTaskArgs string string string bool

section \<open>Collaborators and shared state\<close>

text \<open>
  What the manager changes outside itself: the project caches of the key-value store,
  the tasks handed to the broker, the purges asked of it, each in call order.
\<close>

record world =
  projectCaches :: "string \<times> string \<Rightarrow> project_cache option"
  sentTasks :: "task_args list"
  purgedTasks :: "task_signature list"

text \<open>
  What the manager only reads from its collaborators during one call. None of these is
  in the sources; each is a parameter:
  \<^item> \<open>storeReadFault\<close>, \<open>storeWriteFault\<close>: the transport error of a cache read or write,
    if there is one;
  \<^item> \<open>brokerSubmit\<close>: the signature the broker issues for a task, or its error;
  \<^item> \<open>isLatestTaskFinishedOrTimeout\<close>, \<open>getLatestTaskState\<close>: the cache's two methods
    that ask the broker about the latest task;
  \<^item> \<open>listReleasesByLabels\<close>: the releases of a namespace carrying the project-name label;
  \<^item> \<open>getWithTimeout\<close>: the result of waiting for a task;
  \<^item> \<open>getAutoDependencies\<close>: the subcharts a chart declares (repo, chart, version);
  \<^item> \<open>schedule\<close>: which of the vertices that are ready the graph walker visits next.
\<close>

record env =
  storeReadFault :: "string \<times> string \<Rightarrow> string option"
  storeWriteFault :: "project_cache \<Rightarrow> string option"
  brokerSubmit :: "task_args \<Rightarrow> error + task_signature"
  isLatestTaskFinishedOrTimeout :: "project_cache \<Rightarrow> bool"
  getLatestTaskState :: "project_cache \<Rightarrow> task_state option"
  listReleasesByLabels :: "string \<Rightarrow> string \<Rightarrow> error + release_info list"
  getWithTimeout :: "task_signature \<Rightarrow> 64 word \<Rightarrow> error option"
  getAutoDependencies :: "string \<Rightarrow> string \<Rightarrow> string \<Rightarrow> error + string list"
  schedule :: "nat list \<Rightarrow> nat"

definition GetProjectCache :: "env \<Rightarrow> world \<Rightarrow> string \<Rightarrow> string \<Rightarrow> error + project_cache" where
  "GetProjectCache e w namespace name =
     (case storeReadFault e (namespace, name) of
        Some m \<Rightarrow> Inl (Collaborator m)
      | None \<Rightarrow>
          (case projectCaches w (namespace, name) of
             None \<Rightarrow> Inl NotFoundError
           | Some c \<Rightarrow> Inr c))"

definition CreateOrUpdateProjectCache :: "env \<Rightarrow> world \<Rightarrow> project_cache \<Rightarrow> error option \<times> world" where
  "CreateOrUpdateProjectCache e w c =
     (case storeWriteFault e c of
        Some m \<Rightarrow> (Some (Collaborator m), w)
      | None \<Rightarrow>
          (None, w\<lparr>projectCaches := (projectCaches w)((pc_Namespace c, pc_Name c) \<mapsto> c)\<rparr>))"

definition SendTask :: "env \<Rightarrow> world \<Rightarrow> task_args \<Rightarrow> (error + task_signature) \<times> world" where
  "SendTask e w args =
     (case brokerSubmit e args of
        Inl err \<Rightarrow> (Inl err, w)
      | Inr sg \<Rightarrow> (Inr sg, w\<lparr>sentTasks := sentTasks w @ [args]\<rparr>))"

section \<open>ProjectInfo projection\<close>

text \<open>The loop of isProjectReadyByReleases: it stops at the first release that is not ready.\<close>

fun firstNotReady :: "release_info list \<Rightarrow> bool \<times> string" where
  "firstNotReady [] = (True, [])"
| "firstNotReady (releaseInfo # releases) =
     (if \<not> ri_Ready releaseInfo then (False, ri_Message releaseInfo)
      else firstNotReady releases)"

definition isProjectReadyByReleases :: "release_info list \<Rightarrow> bool \<times> string" where
  "isProjectReadyByReleases releases =
     (if length releases > 0 then firstNotReady releases
      else (False, ''no release can be found''))"

definition taskFailedMessage :: "project_cache \<Rightarrow> string \<Rightarrow> string" where
  "taskFailedMessage c err =
     ''the project latest task '' @ sig_Name (pc_LatestTaskSignature c) @ ''-'' @
       sig_UUID (pc_LatestTaskSignature c) @ '' failed : '' @ err"

definition taskRunningMessage :: "project_cache \<Rightarrow> string" where
  "taskRunningMessage c =
     ''please wait for the project latest task '' @ sig_Name (pc_LatestTaskSignature c) @ ''-'' @
       sig_UUID (pc_LatestTaskSignature c) @ '' finished''"

definition buildProjectInfo :: "env \<Rightarrow> project_cache \<Rightarrow> error + project_info" where
  "buildProjectInfo e projectCache =
     (let taskState = getLatestTaskState e projectCache in
      case listReleasesByLabels e (pc_Namespace projectCache) (pc_Name projectCache) of
        Inl err \<Rightarrow> Inl err
      | Inr rels \<Rightarrow>
          (let (ready, message) =
             (case taskState of
                None \<Rightarrow> isProjectReadyByReleases rels
              | Some ts \<Rightarrow>
                  if ts_TaskName ts = '''' then isProjectReadyByReleases rels
                  else if IsSuccess ts then isProjectReadyByReleases rels
                  else if IsFailure ts then (False, taskFailedMessage projectCache (ts_Error ts))
                  else (False, taskRunningMessage projectCache))
           in Inr \<lparr>pi_ProjectCache = projectCache, pi_Releases = rels,
                   pi_LatestTaskState = taskState, pi_Ready = ready, pi_Message = message\<rparr>))"

section \<open>ProjectManager: the lifecycle operations\<close>

definition defaultTimeoutSec :: "64 word" where
  "defaultTimeoutSec = 60"

definition projectBusyMessage :: "string \<Rightarrow> string \<Rightarrow> string" where
  "projectBusyMessage name uuid =
     ''please wait for the project latest task '' @ name @ ''-'' @ uuid @ '' finished or timeout''"

text \<open>Both of Go's return values: the cache pointer (nil is \<open>None\<close>) and the error.\<close>

definition validateProjectTask ::
    "env \<Rightarrow> world \<Rightarrow> string \<Rightarrow> string \<Rightarrow> bool \<Rightarrow> project_cache option \<times> error option" where
  "validateProjectTask e w namespace name allowProjectNotExist =
     (case GetProjectCache e w namespace name of
        Inl err \<Rightarrow>
          if \<not> IsNotFoundError err then (None, Some err)
          else if \<not> allowProjectNotExist then (None, Some err)
          else (None, None)
      | Inr projectCache \<Rightarrow>
          if \<not> isLatestTaskFinishedOrTimeout e projectCache
          then (Some projectCache,
                Some (Errorf (projectBusyMessage (sig_Name (pc_LatestTaskSignature projectCache))
                                                 (sig_UUID (pc_LatestTaskSignature projectCache)))))
          else (Some projectCache, None))"

text \<open>
  The tail that each of the five operations repeats after a task was sent (in
  CreateProject lines 187-216): write the fresh cache entry, ask the broker to purge the
  superseded task's state (its error is only logged), and wait for the new task when the
  call is synchronous.
\<close>

definition recordProjectTask ::
    "env \<Rightarrow> world \<Rightarrow> string \<Rightarrow> string \<Rightarrow> task_signature \<Rightarrow> 64 word \<Rightarrow>
     project_cache option \<Rightarrow> bool \<Rightarrow> error option \<times> world" where
  "recordProjectTask e w namespace project sg timeoutSec oldProjectCache async =
     (let projectCache = \<lparr>pc_Namespace = namespace, pc_Name = project,
                           pc_LatestTaskSignature = sg, pc_LatestTaskTimeoutSec = timeoutSec\<rparr> in
      case CreateOrUpdateProjectCache e w projectCache of
        (Some err, w1) \<Rightarrow> (Some err, w1)
      | (None, w1) \<Rightarrow>
          (let w2 = (case oldProjectCache of
                       None \<Rightarrow> w1
                     | Some old \<Rightarrow> w1\<lparr>purgedTasks := purgedTasks w1 @ [pc_LatestTaskSignature old]\<rparr>)
           in if \<not> async
              then (case getWithTimeout e sg timeoutSec of
                      Some err \<Rightarrow> (Some err, w2)
                    | None \<Rightarrow> (None, w2))
              else (None, w2)))"

definition CreateProject ::
    "env \<Rightarrow> world \<Rightarrow> string \<Rightarrow> string \<Rightarrow> project_params \<Rightarrow> bool \<Rightarrow> 64 word \<Rightarrow> error option \<times> world" where
  "CreateProject e w namespace project projectParams async timeoutSec0 =
     (if length (pp_Releases projectParams) = 0
      then (Some (Errorf ''project releases can not be empty''), w)
      else
        (let timeoutSec = (if timeoutSec0 = 0 then defaultTimeoutSec else timeoutSec0) in
         (case validateProjectTask e w namespace project True of
            (oldProjectCache, Some err) \<Rightarrow> (Some err, w)
          | (oldProjectCache, None) \<Rightarrow>
              (case SendTask e w (CreateProjectTaskArgs namespace project projectParams) of
                 (Inl err, w1) \<Rightarrow> (Some err, w1)
               | (Inr sg, w1) \<Rightarrow>
                   recordProjectTask e w1 namespace project sg timeoutSec oldProjectCache async))))"

definition DeleteProject ::
    "env \<Rightarrow> world \<Rightarrow> string \<Rightarrow> string \<Rightarrow> bool \<Rightarrow> 64 word \<Rightarrow> bool \<Rightarrow> error option \<times> world" where
  "DeleteProject e w namespace project async timeoutSec0 deletePvcs =
     (case validateProjectTask e w namespace project False of
        (oldProjectCache, Some err) \<Rightarrow>
          if IsNotFoundError err then (None, w) else (Some err, w)
      | (oldProjectCache, None) \<Rightarrow>
          (let timeoutSec = (if timeoutSec0 = 0 then defaultTimeoutSec else timeoutSec0) in
           case SendTask e w (DeleteProjectTaskArgs namespace project deletePvcs) of
             (Inl err, w1) \<Rightarrow> (Some err, w1)
           | (Inr sg, w1) \<Rightarrow>
               recordProjectTask e w1 namespace project sg timeoutSec oldProjectCache async))"

definition AddReleasesInProject ::
    "env \<Rightarrow> world \<Rightarrow> string \<Rightarrow> string \<Rightarrow> project_params \<Rightarrow> bool \<Rightarrow> 64 word \<Rightarrow> error option \<times> world" where
  "AddReleasesInProject e w namespace projectName projectParams async timeoutSec0 =
     (if length (pp_Releases projectParams) = 0
      then (Some (Errorf ''project releases can not be empty''), w)
      else
        (case validateProjectTask e w namespace projectName True of
           (oldProjectCache, Some err) \<Rightarrow> (Some err, w)
         | (oldProjectCache, None) \<Rightarrow>
             (let timeoutSec = (if timeoutSec0 = 0 then defaultTimeoutSec else timeoutSec0) in
              (case SendTask e w (AddReleaseTaskArgs namespace projectName projectParams) of
                 (Inl err, w1) \<Rightarrow> (Some err, w1)
               | (Inr sg, w1) \<Rightarrow>
                   recordProjectTask e w1 namespace projectName sg timeoutSec oldProjectCache async))))"

definition AddReleaseInProject ::
    "env \<Rightarrow> world \<Rightarrow> string \<Rightarrow> string \<Rightarrow> release_request \<Rightarrow> bool \<Rightarrow> 64 word \<Rightarrow> error option \<times> world" where
  "AddReleaseInProject e w namespace projectName releaseParams async timeoutSec =
     AddReleasesInProject e w namespace projectName \<lparr>pp_Releases = [releaseParams]\<rparr> async timeoutSec"

definition releaseNotFoundMessage :: "string \<Rightarrow> string \<Rightarrow> string" where
  "releaseNotFoundMessage releaseName projectName =
     ''release '' @ releaseName @ '' is not found in project '' @ projectName"

text \<open>
  With \<open>allowProjectNotExist\<close> false, validation never returns a nil cache together with
  a nil error (lemma \<open>validateProjectTask_strict_cache\<close> below); the branch for it is
  what Go would do with the nil pointer handed to buildProjectInfo.
\<close>

definition UpgradeReleaseInProject ::
    "env \<Rightarrow> world \<Rightarrow> string \<Rightarrow> string \<Rightarrow> release_request \<Rightarrow> bool \<Rightarrow> 64 word \<Rightarrow> error option \<times> world" where
  "UpgradeReleaseInProject e w namespace projectName releaseParams async timeoutSec0 =
     (case validateProjectTask e w namespace projectName False of
        (oldProjectCache, Some err) \<Rightarrow>
          if IsNotFoundError err then (None, w) else (Some err, w)
      | (None, None) \<Rightarrow> (Some (RuntimePanic ''nil pointer dereference''), w)
      | (Some old, None) \<Rightarrow>
          (case buildProjectInfo e old of
             Inl err \<Rightarrow> (Some err, w)
           | Inr projectInfo \<Rightarrow>
               if \<not> list_ex (\<lambda>releaseInfo. ri_Name releaseInfo = rq_Name releaseParams)
                             (pi_Releases projectInfo)
               then (Some (Errorf (releaseNotFoundMessage (rq_Name releaseParams) projectName)), w)
               else
                 (let timeoutSec = (if timeoutSec0 = 0 then defaultTimeoutSec else timeoutSec0) in
                  (case SendTask e w (UpgradeReleaseTaskArgs namespace projectName releaseParams) of
                     (Inl err, w1) \<Rightarrow> (Some err, w1)
                   | (Inr sg, w1) \<Rightarrow>
                       recordProjectTask e w1 namespace projectName sg timeoutSec (Some old) async))))"

definition RemoveReleaseInProject ::
    "env \<Rightarrow> world \<Rightarrow> string \<Rightarrow> string \<Rightarrow> string \<Rightarrow> bool \<Rightarrow> 64 word \<Rightarrow> bool \<Rightarrow> error option \<times> world" where
  "RemoveReleaseInProject e w namespace projectName releaseName async timeoutSec0 deletePvcs =
     (case validateProjectTask e w namespace projectName False of
        (oldProjectCache, Some err) \<Rightarrow>
          if IsNotFoundError err then (None, w) else (Some err, w)
      | (None, None) \<Rightarrow> (Some (RuntimePanic ''nil pointer dereference''), w)
      | (Some old, None) \<Rightarrow>
          (case buildProjectInfo e old of
             Inl err \<Rightarrow> (Some err, w)
           | Inr projectInfo \<Rightarrow>
               if \<not> list_ex (\<lambda>releaseInfo. ri_Name releaseInfo = releaseName)
                             (pi_Releases projectInfo)
               then (None, w)
               else
                 (let timeoutSec = (if timeoutSec0 = 0 then defaultTimeoutSec else timeoutSec0) in
                  (case SendTask e w (RemoveReleaseTaskArgs namespace projectName releaseName deletePvcs) of
                     (Inl err, w1) \<Rightarrow> (Some err, w1)
                   | (Inr sg, w1) \<Rightarrow>
                       recordProjectTask e w1 namespace projectName sg timeoutSec (Some old) async))))"

section \<open>The dependency graph\<close>

text \<open>
  Modelled from the spec: the dag package (pkg/util/dag, type AcyclicGraph) is not among
  the sources. The spec gives it as a mutable directed graph over comparable vertices
  with \<open>Add\<close>, \<open>Connect\<close>, \<open>UpEdges\<close> (parents), \<open>DownEdges\<close> (children), \<open>Root\<close> (the
  unique vertex with no incoming edge, an error if there is none or more than one) and
  \<open>Walk\<close> (each vertex visited exactly once, in topological order; a cycle makes it
  fail). An edge \<open>A \<rightarrow> B\<close> means that A depends on B, "so B must be realized before A":
  a vertex is visited once all the targets of its down edges have been, which is the
  order of the spec's scenario S5 and property P3. (The spec also calls the traversal
  root-first; its edge meaning, S5 and P3 fix the order as children first, and that is
  what is modelled.) Vertices and edges are sets there;
  here they are lists without repetition in insertion order, one of the orders in which
  \<open>List()\<close> may enumerate them.
\<close>

record 'v graph =
  vertices :: "'v list"
  edges :: "('v \<times> 'v) list"

definition emptyGraph :: "'v graph" where
  "emptyGraph = \<lparr>vertices = [], edges = []\<rparr>"

definition Add :: "'v graph \<Rightarrow> 'v \<Rightarrow> 'v graph" where
  "Add g v = (if v \<in> set (vertices g) then g else g\<lparr>vertices := vertices g @ [v]\<rparr>)"

definition Connect :: "'v graph \<Rightarrow> 'v \<Rightarrow> 'v \<Rightarrow> 'v graph" where
  "Connect g source target =
     (if (source, target) \<in> set (edges g) then g
      else g\<lparr>edges := edges g @ [(source, target)]\<rparr>)"

definition UpEdges :: "'v graph \<Rightarrow> 'v \<Rightarrow> 'v list" where
  "UpEdges g v = map fst (filter (\<lambda>edge. snd edge = v) (edges g))"

definition DownEdges :: "'v graph \<Rightarrow> 'v \<Rightarrow> 'v list" where
  "DownEdges g v = map snd (filter (\<lambda>edge. fst edge = v) (edges g))"

definition Root :: "'v graph \<Rightarrow> error + 'v" where
  "Root g =
     (case filter (\<lambda>v. UpEdges g v = []) (vertices g) of
        [] \<Rightarrow> Inl (Collaborator ''no roots found'')
      | [v] \<Rightarrow> Inr v
      | _ \<Rightarrow> Inl (Collaborator ''multiple roots''))"

text \<open>
  The vertices among \<open>pending\<close> that the walker may visit now: all their children are
  visited. The walker runs them in parallel; the callback of brainFuckChartDepParse takes
  a mutex, so the visits are serialised in an order the scheduler chooses (\<open>pick\<close>).
\<close>

definition readyVertices :: "'v graph \<Rightarrow> 'v list \<Rightarrow> 'v list \<Rightarrow> 'v list" where
  "readyVertices g pending visited =
     filter (\<lambda>v. list_all (\<lambda>d. d \<in> set visited) (DownEdges g v)) pending"

definition chosen :: "('v list \<Rightarrow> nat) \<Rightarrow> 'v list \<Rightarrow> 'v" where
  "chosen pick ready = ready ! (pick ready mod length ready)"

function Walk ::
    "('v list \<Rightarrow> nat) \<Rightarrow> 'v graph \<Rightarrow> ('v \<Rightarrow> 's \<Rightarrow> error + 's) \<Rightarrow> 'v list \<Rightarrow> 'v list \<Rightarrow> 's \<Rightarrow> error + 's" where
  "Walk pick g cb pending visited s =
     (if pending = [] then Inr s
      else if readyVertices g pending visited = [] then Inl (Collaborator ''cycle'')
      else
        (let v = chosen pick (readyVertices g pending visited) in
         (case cb v s of
            Inl err \<Rightarrow> Inl err
          | Inr s' \<Rightarrow> Walk pick g cb (removeAll v pending) (visited @ [v]) s')))"
  by pat_completeness auto
termination
proof (relation "measure (\<lambda>(pick, g, cb, pending, visited, s). length pending)")
  show "wf (measure (\<lambda>(pick, g, cb, pending, visited, s). length pending))"
    by simp
next
  fix pick :: "'v list \<Rightarrow> nat" and g :: "'v graph" and cb :: "'v \<Rightarrow> 's \<Rightarrow> error + 's"
    and pending visited :: "'v list" and s s' :: 's and v :: 'v
  assume ready: "readyVertices g pending visited \<noteq> []"
    and v: "v = chosen pick (readyVertices g pending visited)"
  have "pick (readyVertices g pending visited) mod length (readyVertices g pending visited)
          < length (readyVertices g pending visited)"
    using ready by simp
  then have "v \<in> set (readyVertices g pending visited)"
    unfolding v chosen_def by (rule nth_mem)
  then have "v \<in> set pending"
    by (simp add: readyVertices_def)
  then have "length (removeAll v pending) < length pending"
    by (rule length_removeAll_less)
  then show "((pick, g, cb, removeAll v pending, visited @ [v], s'), (pick, g, cb, pending, visited, s))
               \<in> measure (\<lambda>(pick, g, cb, pending, visited, s). length pending)"
    by simp
qed

declare Walk.simps [simp del]

section \<open>Chart-time ordering\<close>

text \<open>
  The releases of a bundle are distinct objects behind the pointers of
  \<^verbatim>\<open>projectParams.Releases\<close>; a pointer is modelled by the position of its release in
  the bundle, and the objects by the list of their current values.
\<close>

definition projectParamsMap :: "release_request list \<Rightarrow> string \<Rightarrow> nat option" where
  "projectParamsMap releases =
     fold (\<lambda>(i, releaseInfo) m. m(rq_ChartName releaseInfo \<mapsto> i)) (List.enumerate 0 releases)
       Map.empty"

definition connectSubCharts ::
    "(string \<Rightarrow> nat option) \<Rightarrow> nat \<Rightarrow> release_request \<Rightarrow> string list \<Rightarrow> nat graph \<Rightarrow> nat graph" where
  "connectSubCharts m i helmRelease subCharts g0 =
     fold (\<lambda>subChartName g.
             (case m subChartName of
                Some j \<Rightarrow>
                  if \<not> hasKey (rq_Dependencies helmRelease) subChartName then Connect g i j else g
              | None \<Rightarrow> g))
          subCharts g0"

fun initEdges ::
    "env \<Rightarrow> (string \<Rightarrow> nat option) \<Rightarrow> (nat \<times> release_request) list \<Rightarrow> nat graph \<Rightarrow> error + nat graph" where
  "initEdges e m [] g = Inr g"
| "initEdges e m ((i, helmRelease) # rest) g =
     (case getAutoDependencies e (rq_RepoName helmRelease) (rq_ChartName helmRelease)
             (rq_ChartVersion helmRelease) of
        Inl err \<Rightarrow> Inl err
      | Inr subCharts \<Rightarrow> initEdges e m rest (connectSubCharts m i helmRelease subCharts g))"

text \<open>Writing \<open>m[k] = v\<close> for each pair in turn; a write to the nil map panics.\<close>

fun assignAll :: "gomap \<Rightarrow> (string \<times> string) list \<Rightarrow> error + gomap" where
  "assignAll m [] = Inr m"
| "assignAll m ((k, v) # kvs) =
     (case m of
        None \<Rightarrow> Inl (RuntimePanic ''assignment to entry in nil map'')
      | Some al \<Rightarrow> assignAll (Some (AList.update k v al)) kvs)"

text \<open>
  The callback of the walk, on the state it mutates: the releases (by position) and the
  list \<open>releaseParsed\<close> of pointers.
\<close>

definition visitRelease ::
    "nat graph \<Rightarrow> nat \<Rightarrow> release_request list \<times> nat list \<Rightarrow> error + release_request list \<times> nat list" where
  "visitRelease g v st =
     (let (store, releaseParsed) = st; releaseRequest = store ! v in
      (case assignAll (rq_Dependencies releaseRequest)
              (map (\<lambda>dv. (rq_ChartName (store ! dv), rq_Name (store ! dv))) (DownEdges g v)) of
         Inl err \<Rightarrow> Inl err
       | Inr deps \<Rightarrow>
           Inr (store[v := releaseRequest\<lparr>rq_Dependencies := deps\<rparr>], releaseParsed @ [v])))"

definition chartGraph :: "env \<Rightarrow> release_request list \<Rightarrow> error + nat graph" where
  "chartGraph e releases =
     initEdges e (projectParamsMap releases) (List.enumerate 0 releases)
       (fold (\<lambda>i g. Add g i) [0 ..< length releases] emptyGraph)"

text \<open>
  The resolver up to its return: the final state of the walk, that is the releases as
  mutated and the pointers in \<open>releaseParsed\<close>.
\<close>

definition chartDepWalk ::
    "env \<Rightarrow> release_request list \<Rightarrow> error + release_request list \<times> nat list" where
  "chartDepWalk e releases =
     (case chartGraph e releases of
        Inl err \<Rightarrow> Inl err
      | Inr g \<Rightarrow>
          (case Root g of
             Inl err \<Rightarrow> Inl err
           | Inr root \<Rightarrow> Walk (schedule e) g (visitRelease g) (vertices g) [] (releases, [])))"

text \<open>What the caller sees behind the returned pointers.\<close>

definition brainFuckChartDepParse :: "env \<Rightarrow> project_params \<Rightarrow> error + release_request list" where
  "brainFuckChartDepParse e projectParams =
     (case chartDepWalk e (pp_Releases projectParams) of
        Inl err \<Rightarrow> Inl err
      | Inr (store, releaseParsed) \<Rightarrow> Inr (map (\<lambda>v. store ! v) releaseParsed))"

section \<open>Runtime fan-out\<close>

text \<open>
  Modelled from the spec: buildReleaseRequest (another file of this package) is not among
  the sources. The spec: it projects the ReleaseInfo of the named release back into a
  ReleaseRequest, and returns nil if the project has no release of that name.
\<close>

definition toReleaseRequest :: "release_info \<Rightarrow> release_request" where
  "toReleaseRequest r =
     \<lparr>rq_Name = ri_Name r, rq_RepoName = ri_RepoName r, rq_ChartName = ri_ChartName r,
      rq_ChartVersion = ri_ChartVersion r, rq_Dependencies = ri_Dependencies r\<rparr>"

definition buildReleaseRequest :: "project_info \<Rightarrow> string \<Rightarrow> release_request option" where
  "buildReleaseRequest projectInfo releaseName =
     map_option toReleaseRequest
       (find (\<lambda>releaseInfo. ri_Name releaseInfo = releaseName) (pi_Releases projectInfo))"

text \<open>
  Modelled from the spec: helm.DeleteReleaseDependency is not among the sources. The
  spec: it "removes any entry whose key equals chartName". Deleting from the nil map does
  nothing.
\<close>

definition DeleteReleaseDependency :: "gomap \<Rightarrow> string \<Rightarrow> gomap" where
  "DeleteReleaseDependency dependencies chartName = map_option (AList.delete chartName) dependencies"

text \<open>\<open>m[k] = v\<close> after \<open>if m == nil { m = map[string]string{} }\<close>.\<close>

definition assignInit :: "gomap \<Rightarrow> string \<Rightarrow> string \<Rightarrow> gomap" where
  "assignInit m k v = Some (AList.update k v (case m of None \<Rightarrow> [] | Some al \<Rightarrow> al))"

definition initNodes :: "release_info list \<Rightarrow> string graph" where
  "initNodes releases = fold (\<lambda>helmRelease g. Add g (ri_Name helmRelease)) releases emptyGraph"

definition initDeclaredEdges :: "release_info list \<Rightarrow> string graph \<Rightarrow> string graph" where
  "initDeclaredEdges releases g0 =
     fold (\<lambda>helmRelease g.
             fold (\<lambda>v g'. Connect g' (ri_Name helmRelease) v)
                  (mapValues (ri_Dependencies helmRelease)) g)
          releases g0"

text \<open>Lines 452-463: the existing releases whose chart declares the incoming chart.\<close>

fun connectUpper ::
    "env \<Rightarrow> release_request \<Rightarrow> release_info list \<Rightarrow> string graph \<Rightarrow> error + string graph" where
  "connectUpper e releaseParams [] g = Inr g"
| "connectUpper e releaseParams (helmRelease # rest) g =
     (case getAutoDependencies e (ri_RepoName helmRelease) (ri_ChartName helmRelease)
             (ri_ChartVersion helmRelease) of
        Inl err \<Rightarrow> Inl err
      | Inr subCharts \<Rightarrow>
          connectUpper e releaseParams rest
            (fold (\<lambda>subChartName g'.
                     if subChartName = rq_ChartName releaseParams
                        \<and> \<not> hasKey (ri_Dependencies helmRelease) subChartName
                     then Connect g' (ri_Name helmRelease) (rq_Name releaseParams) else g')
                  subCharts g))"

text \<open>Lines 468-478: the existing releases of the charts the incoming chart declares.\<close>

definition connectDown ::
    "release_request \<Rightarrow> release_info list \<Rightarrow> string list \<Rightarrow> string graph \<Rightarrow> string graph" where
  "connectDown releaseParams releases releaseSubCharts g0 =
     fold (\<lambda>releaseSubChart g.
             if hasKey (rq_Dependencies releaseParams) releaseSubChart then g
             else fold (\<lambda>helmRelease g'.
                          if releaseSubChart = ri_ChartName helmRelease
                          then Connect g' (rq_Name releaseParams) (ri_Name helmRelease) else g')
                       releases g)
          releaseSubCharts g0"

text \<open>Lines 480-493: the upper-stream rewrite.\<close>

definition rewriteUpper :: "release_request \<Rightarrow> release_request \<Rightarrow> release_request" where
  "rewriteUpper releaseParams upperRelease =
     (if \<not> hasKey (rq_Dependencies upperRelease) (rq_ChartName releaseParams)
      then upperRelease\<lparr>rq_Dependencies :=
             assignInit (rq_Dependencies upperRelease) (rq_ChartName releaseParams)
               (rq_Name releaseParams)\<rparr>
      else upperRelease)"

fun upperStream :: "project_info \<Rightarrow> release_request \<Rightarrow> string list \<Rightarrow> release_request list" where
  "upperStream projectInfo releaseParams [] = []"
| "upperStream projectInfo releaseParams (upperReleaseName # rest) =
     (case buildReleaseRequest projectInfo upperReleaseName of
        None \<Rightarrow> upperStream projectInfo releaseParams rest
      | Some upperRelease \<Rightarrow>
          rewriteUpper releaseParams upperRelease # upperStream projectInfo releaseParams rest)"

text \<open>Lines 496-509: the down-stream absorb, on the incoming release itself.\<close>

fun downStream :: "project_info \<Rightarrow> string list \<Rightarrow> release_request \<Rightarrow> release_request" where
  "downStream projectInfo [] releaseParams = releaseParams"
| "downStream projectInfo (downReleaseName # rest) releaseParams =
     (case buildReleaseRequest projectInfo downReleaseName of
        None \<Rightarrow> downStream projectInfo rest releaseParams
      | Some downRelease \<Rightarrow>
          downStream projectInfo rest
            (if \<not> hasKey (rq_Dependencies releaseParams) (rq_ChartName downRelease)
             then releaseParams\<lparr>rq_Dependencies :=
                    assignInit (rq_Dependencies releaseParams) (rq_ChartName downRelease)
                      (rq_Name downRelease)\<rparr>
             else releaseParams))"

text \<open>Lines 512-520: the parents of the outgoing release lose their entry for its chart.\<close>

fun removeStream :: "project_info \<Rightarrow> release_request \<Rightarrow> string list \<Rightarrow> release_request list" where
  "removeStream projectInfo releaseParams [] = []"
| "removeStream projectInfo releaseParams (upperReleaseName # rest) =
     (case buildReleaseRequest projectInfo upperReleaseName of
        None \<Rightarrow> removeStream projectInfo releaseParams rest
      | Some upperRelease \<Rightarrow>
          upperRelease\<lparr>rq_Dependencies :=
              DeleteReleaseDependency (rq_Dependencies upperRelease) (rq_ChartName releaseParams)\<rparr>
            # removeStream projectInfo releaseParams rest)"

text \<open>
  The result is the affected list together with \<open>releaseParams\<close> as the call leaves it
  (the add path writes into the caller's object).
\<close>

definition brainFuckRuntimeDepParse ::
    "env \<Rightarrow> project_info \<Rightarrow> release_request \<Rightarrow> bool \<Rightarrow>
     error + release_request list \<times> release_request" where
  "brainFuckRuntimeDepParse e projectInfo releaseParams isRemove =
     (let g = initDeclaredEdges (pi_Releases projectInfo) (initNodes (pi_Releases projectInfo)) in
      if \<not> isRemove then
        (case connectUpper e releaseParams (pi_Releases projectInfo)
                (Add g (rq_Name releaseParams)) of
           Inl err \<Rightarrow> Inl err
         | Inr g1 \<Rightarrow>
             (case getAutoDependencies e (rq_RepoName releaseParams) (rq_ChartName releaseParams)
                     (rq_ChartVersion releaseParams) of
                Inl err \<Rightarrow> Inl err
              | Inr releaseSubCharts \<Rightarrow>
                  (let g2 = connectDown releaseParams (pi_Releases projectInfo) releaseSubCharts g1
                   in Inr (upperStream projectInfo releaseParams (UpEdges g2 (rq_Name releaseParams)),
                           downStream projectInfo (DownEdges g2 (rq_Name releaseParams))
                             releaseParams))))
      else
        Inr (removeStream projectInfo releaseParams (UpEdges g (rq_Name releaseParams)),
             releaseParams))"

section \<open>Scenarios\<close>

text \<open>
  Concrete collaborators, worlds, projects and bundles on which the theorems below are
  exercised: a store and a broker that answer, the project t1/p1 of the spec's scenario
  S1 with its two releases (also the project of S4), a latest task that failed with
  "kubelet EOF" (S6), the project with hive to which hdfs is added (S3), and the bundle
  of x and y in which chart x declares the subchart y (S5), with its variants.
\<close>

definition quietEnv :: env where
  "quietEnv =
     \<lparr>storeReadFault = (\<lambda>_. None),
      storeWriteFault = (\<lambda>_. None),
      brokerSubmit = (\<lambda>_. Inr \<lparr>sig_Name = ''task'', sig_UUID = ''u2''\<rparr>),
      isLatestTaskFinishedOrTimeout = (\<lambda>_. True),
      getLatestTaskState = (\<lambda>_. None),
      listReleasesByLabels = (\<lambda>_ _. Inr []),
      getWithTimeout = (\<lambda>_ _. None),
      getAutoDependencies = (\<lambda>_ _ _. Inr []),
      schedule = (\<lambda>_. 0)\<rparr>"

definition emptyWorld :: world where
  "emptyWorld = \<lparr>projectCaches = (\<lambda>_. None), sentTasks = [], purgedTasks = []\<rparr>"

definition busyEnv :: env where
  "busyEnv = quietEnv\<lparr>isLatestTaskFinishedOrTimeout := (\<lambda>_. False)\<rparr>"

definition cacheS1 :: project_cache where
  "cacheS1 = \<lparr>pc_Namespace = ''t1'', pc_Name = ''p1'',
              pc_LatestTaskSignature = \<lparr>sig_Name = ''Create-Project-Task'', sig_UUID = ''u1''\<rparr>,
              pc_LatestTaskTimeoutSec = 60\<rparr>"

definition worldS1 :: world where
  "worldS1 = \<lparr>projectCaches = (\<lambda>k. if k = (''t1'', ''p1'') then Some cacheS1 else None),
              sentTasks = [], purgedTasks = []\<rparr>"

definition releaseA :: release_request where
  "releaseA = \<lparr>rq_Name = ''a'', rq_RepoName = ''stable'', rq_ChartName = ''zk'',
               rq_ChartVersion = ''1.0'', rq_Dependencies = None\<rparr>"

definition releaseB :: release_request where
  "releaseB = \<lparr>rq_Name = ''b'', rq_RepoName = ''stable'', rq_ChartName = ''kafka'',
               rq_ChartVersion = ''1.0'', rq_Dependencies = Some [(''zk'', ''a'')]\<rparr>"

definition paramsS1 :: project_params where
  "paramsS1 = \<lparr>pp_Releases = [releaseA, releaseB]\<rparr>"

definition releaseInfoA :: release_info where
  "releaseInfoA = \<lparr>ri_Name = ''a'', ri_RepoName = ''stable'', ri_ChartName = ''zk'',
                   ri_ChartVersion = ''1.0'', ri_Dependencies = None,
                   ri_Ready = True, ri_Message = []\<rparr>"

definition releaseInfoB :: release_info where
  "releaseInfoB = \<lparr>ri_Name = ''b'', ri_RepoName = ''stable'', ri_ChartName = ''kafka'',
                   ri_ChartVersion = ''1.0'', ri_Dependencies = Some [(''zk'', ''a'')],
                   ri_Ready = False, ri_Message = ''pod b-0 is pending''\<rparr>"

definition liveEnv :: env where
  "liveEnv = quietEnv\<lparr>listReleasesByLabels := (\<lambda>_ _. Inr [releaseInfoA, releaseInfoB])\<rparr>"

definition failedTask :: task_state where
  "failedTask = \<lparr>ts_TaskUUID = ''u1'', ts_TaskName = ''Create-Project-Task'',
                 ts_Error = ''kubelet EOF'', ts_CreatedAt = 0, ts_State = Failure\<rparr>"

definition failedEnv :: env where
  "failedEnv = liveEnv\<lparr>getLatestTaskState := (\<lambda>_. Some failedTask)\<rparr>"

definition releaseC :: release_request where
  "releaseC = \<lparr>rq_Name = ''c'', rq_RepoName = ''stable'', rq_ChartName = ''hdfs'',
               rq_ChartVersion = ''1.0'', rq_Dependencies = None\<rparr>"

definition projectS4 :: project_info where
  "projectS4 = \<lparr>pi_ProjectCache = cacheS1, pi_Releases = [releaseInfoA, releaseInfoB],
                pi_LatestTaskState = None, pi_Ready = False, pi_Message = ''pod b-0 is pending''\<rparr>"

definition releaseBRemoved :: release_request where
  "releaseBRemoved = \<lparr>rq_Name = ''b'', rq_RepoName = ''stable'', rq_ChartName = ''kafka'',
                      rq_ChartVersion = ''1.0'', rq_Dependencies = Some []\<rparr>"

definition releaseInfoB2 :: release_info where
  "releaseInfoB2 = releaseInfoB\<lparr>ri_Dependencies := Some [(''zk'', ''a0''), (''zookeeper'', ''a'')]\<rparr>"

definition projectTwoKeys :: project_info where
  "projectTwoKeys = projectS4\<lparr>pi_Releases := [releaseInfoA, releaseInfoB2]\<rparr>"

definition releaseInfoHive :: release_info where
  "releaseInfoHive = \<lparr>ri_Name = ''hive'', ri_RepoName = ''stable'', ri_ChartName = ''hive'',
                      ri_ChartVersion = ''1.0'', ri_Dependencies = None,
                      ri_Ready = True, ri_Message = []\<rparr>"

definition projectS3 :: project_info where
  "projectS3 = projectS4\<lparr>pi_Releases := [releaseInfoHive]\<rparr>"

definition releaseHdfs :: release_request where
  "releaseHdfs = \<lparr>rq_Name = ''hdfs'', rq_RepoName = ''stable'', rq_ChartName = ''hdfs'',
                  rq_ChartVersion = ''1.0'', rq_Dependencies = None\<rparr>"

definition envS3 :: env where
  "envS3 = quietEnv\<lparr>getAutoDependencies :=
             (\<lambda>repo chart version. if chart = ''hive'' then Inr [''hdfs''] else Inr [])\<rparr>"

definition releaseHiveRewired :: release_request where
  "releaseHiveRewired = \<lparr>rq_Name = ''hive'', rq_RepoName = ''stable'', rq_ChartName = ''hive'',
                         rq_ChartVersion = ''1.0'', rq_Dependencies = Some [(''hdfs'', ''hdfs'')]\<rparr>"

definition envS5 :: env where
  "envS5 = quietEnv\<lparr>getAutoDependencies :=
             (\<lambda>repo chart version. if chart = ''x'' then Inr [''y''] else Inr [])\<rparr>"

definition releaseX :: release_request where
  "releaseX = \<lparr>rq_Name = ''x'', rq_RepoName = ''stable'', rq_ChartName = ''x'',
               rq_ChartVersion = ''1.0'', rq_Dependencies = Some []\<rparr>"

definition releaseY :: release_request where
  "releaseY = \<lparr>rq_Name = ''y'', rq_RepoName = ''stable'', rq_ChartName = ''y'',
               rq_ChartVersion = ''1.0'', rq_Dependencies = Some []\<rparr>"

definition releaseXWired :: release_request where
  "releaseXWired = releaseX\<lparr>rq_Dependencies := Some [(''y'', ''y'')]\<rparr>"

definition releaseXNil :: release_request where
  "releaseXNil = releaseX\<lparr>rq_Dependencies := None\<rparr>"

definition releaseYBack :: release_request where
  "releaseYBack = releaseY\<lparr>rq_Dependencies := Some [(''x'', ''x'')]\<rparr>"

definition graphS5 :: "nat graph" where
  "graphS5 = \<lparr>vertices = [0, 1], edges = [(0, 1)]\<rparr>"

definition paramsS5 :: project_params where
  "paramsS5 = \<lparr>pp_Releases = [releaseX, releaseY]\<rparr>"

definition paramsBack :: project_params where
  "paramsBack = \<lparr>pp_Releases = [releaseX, releaseYBack]\<rparr>"

definition unnamedFailedEnv :: env where
  "unnamedFailedEnv =
     quietEnv\<lparr>listReleasesByLabels := (\<lambda>_ _. Inr [releaseInfoA]),
              getLatestTaskState := (\<lambda>_. Some (failedTask\<lparr>ts_TaskName := []\<rparr>))\<rparr>"

section \<open>Properties\<close>


text \<open>
  The spec's "derived from releases alone": no release gives not ready and "no release
  can be found"; otherwise ready iff every release is ready, and the message is that of
  the first release that is not ready (empty when all are).
\<close>

definition derivedFromReleases :: "release_info list \<Rightarrow> bool \<Rightarrow> string \<Rightarrow> bool" where
  "derivedFromReleases rels ready message =
     ((rels = [] \<longrightarrow> \<not> ready \<and> message = ''no release can be found'')
      \<and> (rels \<noteq> [] \<longrightarrow>
           (ready = (\<forall>r \<in> set rels. ri_Ready r))
           \<and> (ready \<longrightarrow> message = [])
           \<and> (\<forall>pre r post. rels = pre @ r # post \<and> (\<forall>x \<in> set pre. ri_Ready x) \<and> \<not> ri_Ready r
                 \<longrightarrow> message = ri_Message r)))"

text \<open>
  A release of the project is a parent of the incoming release in the graph of the
  runtime resolver when it lists the incoming release's name among the values of its
  dependencies, or its chart declares the incoming chart and it has no entry for that
  chart, or it bears the incoming release's own name and the incoming chart declares its
  chart without the incoming request having an entry for it.
\<close>

definition isParentOf :: "env \<Rightarrow> release_request \<Rightarrow> release_info \<Rightarrow> bool" where
  "isParentOf e inc R =
     (rq_Name inc \<in> ran (lookup (ri_Dependencies R))
      \<or> ((\<exists>subs. getAutoDependencies e (ri_RepoName R) (ri_ChartName R) (ri_ChartVersion R) = Inr subs
                  \<and> rq_ChartName inc \<in> set subs)
          \<and> \<not> hasKey (ri_Dependencies R) (rq_ChartName inc))
      \<or> (ri_Name R = rq_Name inc
          \<and> (\<exists>subs. getAutoDependencies e (rq_RepoName inc) (rq_ChartName inc) (rq_ChartVersion inc) = Inr subs
                  \<and> ri_ChartName R \<in> set subs)
          \<and> \<not> hasKey (rq_Dependencies inc) (ri_ChartName R)))"

text \<open>
  The entries the walk writes into release \<open>i\<close>: one per child, chart name to release
  name.
\<close>

definition inferred :: "release_request list \<Rightarrow> nat graph \<Rightarrow> nat \<Rightarrow> (string \<times> string) list" where
  "inferred rels g i = map (\<lambda>dv. (rq_ChartName (rels ! dv), rq_Name (rels ! dv))) (DownEdges g i)"

text \<open>Release \<open>i\<close> after its visit: the bundle's release with those entries written.\<close>

definition augmented :: "release_request list \<Rightarrow> nat graph \<Rightarrow> nat \<Rightarrow> release_request \<Rightarrow> bool" where
  "augmented rels g i r =
     (\<exists>deps. assignAll (rq_Dependencies (rels ! i)) (inferred rels g i) = Inr deps
          \<and> r = (rels ! i)\<lparr>rq_Dependencies := deps\<rparr>)"

text \<open>
  What holds of the walk's state after the vertices \<open>vis\<close> have been visited in that
  order: \<open>releaseParsed\<close> is \<open>vis\<close>, the visited releases are augmented and the others
  untouched, and every vertex was visited after all its children.
\<close>

definition chartWalkInv ::
    "release_request list \<Rightarrow> nat graph \<Rightarrow> nat list \<Rightarrow> release_request list \<times> nat list \<Rightarrow> bool" where
  "chartWalkInv rels g vis st =
     (snd st = vis \<and> distinct vis \<and> length (fst st) = length rels
      \<and> (\<forall>i < length rels. i \<in> set vis \<longrightarrow> augmented rels g i (fst st ! i))
      \<and> (\<forall>i < length rels. i \<notin> set vis \<longrightarrow> fst st ! i = rels ! i)
      \<and> (\<forall>k < length vis. set (DownEdges g (vis ! k)) \<subseteq> set (take k vis))
      \<and> set vis \<subseteq> {..< length rels})"

text \<open>
  The walk never turns a nil dependencies map into a map or a map into nil: each release
  of the state has a nil map exactly when the bundle's release has.
\<close>

definition nilSafe :: "release_request list \<Rightarrow> release_request list \<times> nat list \<Rightarrow> bool" where
  "nilSafe rels st =
     (length (fst st) = length rels
      \<and> (\<forall>i < length rels. (rq_Dependencies (fst st ! i) = None) = (rq_Dependencies (rels ! i) = None)))"

section \<open>The lifecycle operations: single flight, missing projects, timeouts\<close>

lemma validateProjectTask_strict_cache:
  "validateProjectTask e w ns name False \<noteq> (None, None)"
  by (simp add: validateProjectTask_def IsNotFoundError_def split: sum.splits)

lemma GetProjectCache_error_cases:
  "GetProjectCache e w ns p = Inl err \<Longrightarrow> err = NotFoundError \<or> (\<exists>m. err = Collaborator m)"
  by (auto simp: GetProjectCache_def split: option.splits)

lemma validateProjectTask_busy:
  assumes "GetProjectCache e w ns p = Inr c" and "\<not> isLatestTaskFinishedOrTimeout e c"
  shows "validateProjectTask e w ns p allow =
           (Some c, Some (Errorf (projectBusyMessage (sig_Name (pc_LatestTaskSignature c))
                                                     (sig_UUID (pc_LatestTaskSignature c)))))"
  using assms by (simp add: validateProjectTask_def)

lemma validateProjectTask_busy_only:
  assumes "snd (validateProjectTask e w ns p allow) = Some (Errorf m)"
  shows "\<exists>c. GetProjectCache e w ns p = Inr c \<and> \<not> isLatestTaskFinishedOrTimeout e c"
proof (cases "GetProjectCache e w ns p")
  case (Inl err)
  with GetProjectCache_error_cases [OF Inl] assms show ?thesis
    by (auto simp: validateProjectTask_def IsNotFoundError_def split: if_splits)
next
  case (Inr c)
  with assms show ?thesis
    by (auto simp: validateProjectTask_def split: if_splits)
qed

text \<open>
  Claim C1. Single-flight validation fails with the ProjectBusy error exactly when a
  project cache exists for (namespace, name) and its latest task is neither finished nor
  timed out; the message is "please wait for the project latest task <name>-<uuid>
  finished or timeout" with the cached signature's name and uuid. In that case each of
  the five mutating operations returns with the world as it was: no task is sent and no
  cache entry is written. CreateProject and AddReleasesInProject test for an empty
  release list before they validate, so with no releases they return that error instead
  of ProjectBusy, the world unchanged all the same.
\<close>

theorem single_flight_ProjectBusy:
  "((\<exists>n u. snd (validateProjectTask e w ns p allow) = Some (Errorf (projectBusyMessage n u)))
      = (\<exists>c. GetProjectCache e w ns p = Inr c \<and> \<not> isLatestTaskFinishedOrTimeout e c))
   \<and> (\<forall>c. GetProjectCache e w ns p = Inr c \<and> \<not> isLatestTaskFinishedOrTimeout e c \<longrightarrow>
        (let busy = Some (Errorf (projectBusyMessage (sig_Name (pc_LatestTaskSignature c))
                                                     (sig_UUID (pc_LatestTaskSignature c))));
             empty = Some (Errorf ''project releases can not be empty'')
         in snd (validateProjectTask e w ns p allow) = busy
          \<and> CreateProject e w ns p params async t =
              (if pp_Releases params = [] then empty else busy, w)
          \<and> AddReleasesInProject e w ns p params async t =
              (if pp_Releases params = [] then empty else busy, w)
          \<and> DeleteProject e w ns p async t deletePvcs = (busy, w)
          \<and> UpgradeReleaseInProject e w ns p releaseParams async t = (busy, w)
          \<and> RemoveReleaseInProject e w ns p releaseName async t deletePvcs = (busy, w)))"
proof (intro conjI allI impI)
  show "(\<exists>n u. snd (validateProjectTask e w ns p allow) = Some (Errorf (projectBusyMessage n u)))
      = (\<exists>c. GetProjectCache e w ns p = Inr c \<and> \<not> isLatestTaskFinishedOrTimeout e c)"
    using validateProjectTask_busy_only [of e w ns p allow]
      validateProjectTask_busy [of e w ns p _ allow]
    by (metis snd_conv)
next
  fix c
  assume "GetProjectCache e w ns p = Inr c \<and> \<not> isLatestTaskFinishedOrTimeout e c"
  then have v: "\<And>allow. validateProjectTask e w ns p allow =
           (Some c, Some (Errorf (projectBusyMessage (sig_Name (pc_LatestTaskSignature c))
                                                     (sig_UUID (pc_LatestTaskSignature c)))))"
    using validateProjectTask_busy by blast
  show "let busy = Some (Errorf (projectBusyMessage (sig_Name (pc_LatestTaskSignature c))
                                                     (sig_UUID (pc_LatestTaskSignature c))));
             empty = Some (Errorf ''project releases can not be empty'')
         in snd (validateProjectTask e w ns p allow) = busy
          \<and> CreateProject e w ns p params async t =
              (if pp_Releases params = [] then empty else busy, w)
          \<and> AddReleasesInProject e w ns p params async t =
              (if pp_Releases params = [] then empty else busy, w)
          \<and> DeleteProject e w ns p async t deletePvcs = (busy, w)
          \<and> UpgradeReleaseInProject e w ns p releaseParams async t = (busy, w)
          \<and> RemoveReleaseInProject e w ns p releaseName async t deletePvcs = (busy, w)"
    by (simp add: v CreateProject_def AddReleasesInProject_def DeleteProject_def
        UpgradeReleaseInProject_def RemoveReleaseInProject_def IsNotFoundError_def Let_def)
qed

theorem single_flight_ProjectBusy_witness:
  "GetProjectCache busyEnv worldS1 ''t1'' ''p1'' = Inr cacheS1
   \<and> \<not> isLatestTaskFinishedOrTimeout busyEnv cacheS1
   \<and> CreateProject busyEnv worldS1 ''t1'' ''p1'' paramsS1 True 0 =
       (Some (Errorf ''please wait for the project latest task Create-Project-Task-u1 finished or timeout''),
        worldS1)
   \<and> DeleteProject busyEnv worldS1 ''t1'' ''p1'' True 0 False =
       (Some (Errorf ''please wait for the project latest task Create-Project-Task-u1 finished or timeout''),
        worldS1)
   \<and> sentTasks worldS1 = []"
proof -
  have g: "GetProjectCache busyEnv worldS1 ''t1'' ''p1'' = Inr cacheS1"
    by (simp add: GetProjectCache_def busyEnv_def quietEnv_def worldS1_def)
  have b: "\<not> isLatestTaskFinishedOrTimeout busyEnv cacheS1"
    by (simp add: busyEnv_def quietEnv_def)
  have m: "projectBusyMessage (sig_Name (pc_LatestTaskSignature cacheS1))
             (sig_UUID (pc_LatestTaskSignature cacheS1)) =
           ''please wait for the project latest task Create-Project-Task-u1 finished or timeout''"
    by (simp add: projectBusyMessage_def cacheS1_def)
  have n: "pp_Releases paramsS1 \<noteq> []"
    by (simp add: paramsS1_def)
  from single_flight_ProjectBusy [where e = busyEnv and w = worldS1 and ns = "''t1''"
      and p = "''p1''" and params = paramsS1 and async = True and t = 0 and deletePvcs = False]
  have "CreateProject busyEnv worldS1 ''t1'' ''p1'' paramsS1 True 0 =
       (Some (Errorf ''please wait for the project latest task Create-Project-Task-u1 finished or timeout''),
        worldS1)
   \<and> DeleteProject busyEnv worldS1 ''t1'' ''p1'' True 0 False =
       (Some (Errorf ''please wait for the project latest task Create-Project-Task-u1 finished or timeout''),
        worldS1)"
    using g b n by (simp add: Let_def m)
  then show ?thesis
    using g b by (simp add: worldS1_def)
qed

text \<open>
  Claim C7. DeleteProject on a (namespace, name) for which the store holds no project
  cache returns nil and leaves the world as it was: no delete task is sent and no cache
  entry is written.
\<close>

theorem DeleteProject_missing_project:
  assumes "storeReadFault e (namespace, project) = None"
    and "projectCaches w (namespace, project) = None"
  shows "DeleteProject e w namespace project async timeoutSec deletePvcs = (None, w)"
  using assms
  by (simp add: DeleteProject_def validateProjectTask_def GetProjectCache_def IsNotFoundError_def)

theorem DeleteProject_missing_project_witness:
  "storeReadFault quietEnv (''t1'', ''p1'') = None
   \<and> projectCaches emptyWorld (''t1'', ''p1'') = None
   \<and> DeleteProject quietEnv emptyWorld ''t1'' ''p1'' False 0 True = (None, emptyWorld)
   \<and> sentTasks emptyWorld = []"
proof -
  have f: "storeReadFault quietEnv (''t1'', ''p1'') = None"
    by (simp add: quietEnv_def)
  have c: "projectCaches emptyWorld (''t1'', ''p1'') = None"
    by (simp add: emptyWorld_def)
  from DeleteProject_missing_project [OF f c, of False 0 True] f c
  show ?thesis by (simp add: emptyWorld_def)
qed

text \<open>
  Claim C6, as amended. UpgradeReleaseInProject passes \<open>allowProjectNotExist = false\<close>
  like DeleteProject and RemoveReleaseInProject, and like them it swallows the NotFound
  error of the cache lookup: all three return nil and leave the world as it was (no task,
  no cache write). The claim as stated, that the upgrade does not turn NotFound into a
  success return, fails: see the counterexample after the witness.
\<close>

theorem NotFound_swallowed:
  assumes "GetProjectCache e w namespace project = Inl NotFoundError"
  shows "UpgradeReleaseInProject e w namespace project releaseParams async timeoutSec = (None, w)
       \<and> RemoveReleaseInProject e w namespace project releaseName async timeoutSec deletePvcs = (None, w)
       \<and> DeleteProject e w namespace project async timeoutSec deletePvcs = (None, w)"
  using assms
  by (simp add: UpgradeReleaseInProject_def RemoveReleaseInProject_def DeleteProject_def
      validateProjectTask_def IsNotFoundError_def)

theorem NotFound_swallowed_witness:
  "GetProjectCache quietEnv emptyWorld ''t1'' ''p1'' = Inl NotFoundError
   \<and> UpgradeReleaseInProject quietEnv emptyWorld ''t1'' ''p1'' releaseA False 0 = (None, emptyWorld)
   \<and> RemoveReleaseInProject quietEnv emptyWorld ''t1'' ''p1'' ''a'' False 0 True = (None, emptyWorld)
   \<and> DeleteProject quietEnv emptyWorld ''t1'' ''p1'' False 0 True = (None, emptyWorld)"
proof -
  have g: "GetProjectCache quietEnv emptyWorld ''t1'' ''p1'' = Inl NotFoundError"
    by (simp add: GetProjectCache_def quietEnv_def emptyWorld_def)
  from NotFound_swallowed [OF g, of releaseA False 0 "''a''" True] g
  show ?thesis by simp
qed

theorem UpgradeReleaseInProject_NotFound_counterexample:
  "GetProjectCache quietEnv emptyWorld ''t1'' ''p1'' = Inl NotFoundError
   \<and> UpgradeReleaseInProject quietEnv emptyWorld ''t1'' ''p1'' releaseA True 0 = (None, emptyWorld)"
  by (simp add: UpgradeReleaseInProject_def validateProjectTask_def GetProjectCache_def
      IsNotFoundError_def quietEnv_def emptyWorld_def)

text \<open>
  Claim C8. Once validation has passed (the cache exists and its latest task is finished
  or timed out) and the releases of the project are listed, a release name that is not
  among them makes UpgradeReleaseInProject fail with "release <r> is not found in project
  <p>" and RemoveReleaseInProject return nil; neither sends a task nor writes a cache.
\<close>

theorem release_precheck:
  assumes "GetProjectCache e w namespace projectName = Inr c"
    and "isLatestTaskFinishedOrTimeout e c"
    and "listReleasesByLabels e (pc_Namespace c) (pc_Name c) = Inr rels"
    and "rq_Name releaseParams \<notin> ri_Name ` set rels"
    and "releaseName \<notin> ri_Name ` set rels"
  shows "UpgradeReleaseInProject e w namespace projectName releaseParams async timeoutSec =
           (Some (Errorf (''release '' @ rq_Name releaseParams @ '' is not found in project '' @ projectName)), w)
       \<and> RemoveReleaseInProject e w namespace projectName releaseName async timeoutSec deletePvcs =
           (None, w)"
proof -
  have v: "validateProjectTask e w namespace projectName False = (Some c, None)"
    using assms(1,2) by (simp add: validateProjectTask_def)
  obtain pinfo where b: "buildProjectInfo e c = Inr pinfo" and r: "pi_Releases pinfo = rels"
    using assms(3) by (simp add: buildProjectInfo_def Let_def case_prod_beta)
  have "\<not> list_ex (\<lambda>releaseInfo. ri_Name releaseInfo = rq_Name releaseParams) rels"
    and "\<not> list_ex (\<lambda>releaseInfo. ri_Name releaseInfo = releaseName) rels"
    using assms(4,5) by (force simp: list_ex_iff image_iff)+
  then show ?thesis
    by (simp add: UpgradeReleaseInProject_def RemoveReleaseInProject_def v b r
        releaseNotFoundMessage_def)
qed

theorem release_precheck_witness:
  "GetProjectCache liveEnv worldS1 ''t1'' ''p1'' = Inr cacheS1
   \<and> isLatestTaskFinishedOrTimeout liveEnv cacheS1
   \<and> listReleasesByLabels liveEnv ''t1'' ''p1'' = Inr [releaseInfoA, releaseInfoB]
   \<and> UpgradeReleaseInProject liveEnv worldS1 ''t1'' ''p1'' releaseC True 0 =
       (Some (Errorf ''release c is not found in project p1''), worldS1)
   \<and> RemoveReleaseInProject liveEnv worldS1 ''t1'' ''p1'' ''c'' True 0 False = (None, worldS1)"
proof -
  have g: "GetProjectCache liveEnv worldS1 ''t1'' ''p1'' = Inr cacheS1"
    by (simp add: GetProjectCache_def liveEnv_def quietEnv_def worldS1_def)
  have f: "isLatestTaskFinishedOrTimeout liveEnv cacheS1"
    by (simp add: liveEnv_def quietEnv_def)
  have l: "listReleasesByLabels liveEnv (pc_Namespace cacheS1) (pc_Name cacheS1) =
             Inr [releaseInfoA, releaseInfoB]"
    by (simp add: liveEnv_def)
  have n1: "rq_Name releaseC \<notin> ri_Name ` set [releaseInfoA, releaseInfoB]"
    by (simp add: releaseC_def releaseInfoA_def releaseInfoB_def)
  have n2: "''c'' \<notin> ri_Name ` set [releaseInfoA, releaseInfoB]"
    by (simp add: releaseInfoA_def releaseInfoB_def)
  from release_precheck [OF g f l n1 n2, of True 0 False] g f l
  show ?thesis by (simp add: releaseC_def cacheS1_def)
qed















section \<open>The ProjectInfo projection\<close>

lemma firstNotReady_ready: "fst (firstNotReady rels) = (\<forall>r \<in> set rels. ri_Ready r)"
  by (induction rels) auto

lemma firstNotReady_all_ready: "\<forall>r \<in> set rels. ri_Ready r \<Longrightarrow> firstNotReady rels = (True, [])"
  by (induction rels) auto

lemma firstNotReady_message:
  "(\<forall>x \<in> set pre. ri_Ready x) \<Longrightarrow> \<not> ri_Ready r \<Longrightarrow>
     firstNotReady (pre @ r # post) = (False, ri_Message r)"
  by (induction pre) auto

lemma isProjectReadyByReleases_derived:
  "derivedFromReleases rels (fst (isProjectReadyByReleases rels)) (snd (isProjectReadyByReleases rels))"
proof (cases "rels = []")
  case True
  then show ?thesis
    by (simp add: derivedFromReleases_def isProjectReadyByReleases_def)
next
  case False
  then have i: "isProjectReadyByReleases rels = firstNotReady rels"
    by (simp add: isProjectReadyByReleases_def)
  show ?thesis
    unfolding derivedFromReleases_def i
    using False firstNotReady_ready [of rels] firstNotReady_all_ready [of rels]
      firstNotReady_message
    by (metis fst_conv snd_conv)
qed

text \<open>
  Claim C3, as amended. When the releases can be listed, buildProjectInfo computes
  (ready, message) by the table, read top down: no task state, an unnamed one or a
  successful one gives the result derived from the releases alone (\<open>derivedFromReleases\<close>);
  a named failed task gives ready = false and the message "the project latest task
  <name>-<uuid> failed : <err>", with a space on either side of the colon, whatever the
  releases are; any other named task gives ready = false and "please wait for the project
  latest task <name>-<uuid> finished". The claim's message "... failed: <err>" is not
  what the code formats: see the counterexample after the witness.
\<close>

theorem buildProjectInfo_decision_table:
  assumes "listReleasesByLabels e (pc_Namespace c) (pc_Name c) = Inr rels"
  shows "\<exists>info. buildProjectInfo e c = Inr info \<and> pi_Releases info = rels
           \<and> pi_LatestTaskState info = getLatestTaskState e c
           \<and> (case getLatestTaskState e c of
                 None \<Rightarrow> derivedFromReleases rels (pi_Ready info) (pi_Message info)
               | Some ts \<Rightarrow>
                   if ts_TaskName ts = [] \<or> ts_State ts = Success
                   then derivedFromReleases rels (pi_Ready info) (pi_Message info)
                   else if ts_State ts = Failure
                   then \<not> pi_Ready info
                      \<and> pi_Message info =
                          ''the project latest task '' @ sig_Name (pc_LatestTaskSignature c) @ ''-'' @
                            sig_UUID (pc_LatestTaskSignature c) @ '' failed : '' @ ts_Error ts
                   else \<not> pi_Ready info
                      \<and> pi_Message info =
                          ''please wait for the project latest task '' @
                            sig_Name (pc_LatestTaskSignature c) @ ''-'' @
                            sig_UUID (pc_LatestTaskSignature c) @ '' finished'')"
  using assms isProjectReadyByReleases_derived [of rels]
  by (simp add: buildProjectInfo_def Let_def case_prod_beta IsSuccess_def IsFailure_def
      taskFailedMessage_def taskRunningMessage_def split: option.splits)

theorem buildProjectInfo_decision_table_witness:
  "listReleasesByLabels failedEnv (pc_Namespace cacheS1) (pc_Name cacheS1) =
     Inr [releaseInfoA, releaseInfoB]
   \<and> getLatestTaskState failedEnv cacheS1 = Some failedTask
   \<and> map_sum id pi_Ready (buildProjectInfo failedEnv cacheS1) = Inr False
   \<and> map_sum id pi_Message (buildProjectInfo failedEnv cacheS1) =
       Inr ''the project latest task Create-Project-Task-u1 failed : kubelet EOF''"
proof -
  have l: "listReleasesByLabels failedEnv (pc_Namespace cacheS1) (pc_Name cacheS1) =
     Inr [releaseInfoA, releaseInfoB]"
    by (simp add: failedEnv_def liveEnv_def)
  have t: "getLatestTaskState failedEnv cacheS1 = Some failedTask"
    by (simp add: failedEnv_def)
  from buildProjectInfo_decision_table [OF l] obtain info where
    b: "buildProjectInfo failedEnv cacheS1 = Inr info" and
    d: "\<not> pi_Ready info \<and>
        pi_Message info =
          ''the project latest task '' @ sig_Name (pc_LatestTaskSignature cacheS1) @ ''-'' @
            sig_UUID (pc_LatestTaskSignature cacheS1) @ '' failed : '' @ ts_Error failedTask"
    by (auto simp: t failedTask_def)
  from d have "pi_Message info =
      ''the project latest task Create-Project-Task-u1 failed : kubelet EOF''"
    by (simp add: cacheS1_def failedTask_def)
  with b d show ?thesis
    using l t by simp
qed

theorem buildProjectInfo_failed_message_counterexample:
  "map_sum id pi_Message (buildProjectInfo failedEnv cacheS1) =
     Inr ''the project latest task Create-Project-Task-u1 failed : kubelet EOF''
   \<and> map_sum id pi_Message (buildProjectInfo failedEnv cacheS1) \<noteq>
     Inr ''the project latest task Create-Project-Task-u1 failed: kubelet EOF''
   \<and> map_option ts_State (getLatestTaskState unnamedFailedEnv cacheS1) = Some Failure
   \<and> map_sum id pi_Ready (buildProjectInfo unnamedFailedEnv cacheS1) = Inr True"
  by (simp add: buildProjectInfo_def failedEnv_def unnamedFailedEnv_def liveEnv_def quietEnv_def
      failedTask_def cacheS1_def IsSuccess_def IsFailure_def taskFailedMessage_def
      isProjectReadyByReleases_def releaseInfoA_def)

section \<open>The runtime resolver\<close>

lemma lookup_Some: "lookup (Some al) = map_of al"
  by (rule ext) (simp add: lookup_def)

lemma lookup_None: "lookup None = Map.empty"
  by (rule ext) (simp add: lookup_def)

lemma set_mapValues: "set (mapValues m) = ran (lookup m)"
  by (cases m) (simp_all add: mapValues_def lookup_Some lookup_None ran_map_of)

lemma toReleaseRequest_fields:
  "rq_Name (toReleaseRequest R) = ri_Name R"
  "rq_ChartName (toReleaseRequest R) = ri_ChartName R"
  "rq_Dependencies (toReleaseRequest R) = ri_Dependencies R"
  by (simp_all add: toReleaseRequest_def)

lemma edges_Add: "edges (Add g v) = edges g"
  by (simp add: Add_def)

lemma set_edges_Connect: "set (edges (Connect g a b)) = insert (a, b) (set (edges g))"
  by (auto simp: Connect_def)

lemma set_UpEdges: "set (UpEdges g v) = {a. (a, v) \<in> set (edges g)}"
  by (force simp: UpEdges_def)

lemma set_DownEdges: "set (DownEdges g v) = {b. (v, b) \<in> set (edges g)}"
  by (force simp: DownEdges_def)

lemma edges_initNodes_aux: "edges (fold (\<lambda>helmRelease g. Add g (ri_Name helmRelease)) rels g) = edges g"
  by (induction rels arbitrary: g) (simp_all add: edges_Add)

lemma edges_initNodes: "edges (initNodes rels) = []"
  by (simp add: initNodes_def edges_initNodes_aux emptyGraph_def)

lemma set_edges_connect_values:
  "set (edges (fold (\<lambda>v g'. Connect g' n v) vs g)) = set (edges g) \<union> {n} \<times> set vs"
  by (induction vs arbitrary: g) (auto simp: set_edges_Connect)

lemma set_edges_initDeclaredEdges:
  "set (edges (initDeclaredEdges rels g)) =
     set (edges g) \<union> (\<Union>R \<in> set rels. {ri_Name R} \<times> ran (lookup (ri_Dependencies R)))"
  unfolding initDeclaredEdges_def
  by (induction rels arbitrary: g) (auto simp: set_edges_connect_values set_mapValues)

lemma buildReleaseRequest_Some:
  assumes "buildReleaseRequest pinfo u = Some upper"
  shows "\<exists>R \<in> set (pi_Releases pinfo). ri_Name R = u \<and> upper = toReleaseRequest R"
  using assms by (auto simp: buildReleaseRequest_def find_Some_iff)

lemma distinct_names_unique:
  assumes "distinct (map ri_Name rels)" "R \<in> set rels" "R' \<in> set rels" "ri_Name R = ri_Name R'"
  shows "R = R'"
  using assms by (meson distinct_map inj_on_eq_iff)

lemma removeStream_member:
  assumes "U \<in> set (removeStream pinfo out ups)"
  shows "\<exists>u \<in> set ups. \<exists>upper. buildReleaseRequest pinfo u = Some upper
           \<and> U = upper\<lparr>rq_Dependencies :=
                   DeleteReleaseDependency (rq_Dependencies upper) (rq_ChartName out)\<rparr>"
  using assms by (induction ups) (auto split: option.splits)

lemma no_key_after_delete: "\<not> hasKey (DeleteReleaseDependency m k) k"
  by (cases m) (simp_all add: hasKey_def lookup_def DeleteReleaseDependency_def delete_conv')

text \<open>
  Claim C5. A remove invocation (isRemove = true) always returns, leaving the outgoing
  release as it was. Every release U of the affected list has no entry keyed by the
  outgoing release's chart name any more (the deletion is by chart name), and bears the
  name of a release of the project that listed the outgoing release's name among the
  values of its dependencies. Release names being unique in a project, U is the request
  projection of that very release, with the entry deleted.
\<close>

theorem remove_affected_parents:
  "\<exists>affected.
     brainFuckRuntimeDepParse e pinfo out True = Inr (affected, out)
     \<and> (\<forall>U \<in> set affected.
           \<not> hasKey (rq_Dependencies U) (rq_ChartName out)
           \<and> (\<exists>R \<in> set (pi_Releases pinfo).
                 ri_Name R = rq_Name U \<and> rq_Name out \<in> ran (lookup (ri_Dependencies R))))
     \<and> (distinct (map ri_Name (pi_Releases pinfo)) \<longrightarrow>
          (\<forall>U \<in> set affected.
             \<exists>R \<in> set (pi_Releases pinfo).
               rq_Name out \<in> ran (lookup (ri_Dependencies R))
               \<and> U = (toReleaseRequest R)\<lparr>rq_Dependencies :=
                        DeleteReleaseDependency (ri_Dependencies R) (rq_ChartName out)\<rparr>))"
proof -
  define g where "g = initDeclaredEdges (pi_Releases pinfo) (initNodes (pi_Releases pinfo))"
  define affected where "affected = removeStream pinfo out (UpEdges g (rq_Name out))"
  have res: "brainFuckRuntimeDepParse e pinfo out True = Inr (affected, out)"
    by (simp add: brainFuckRuntimeDepParse_def affected_def g_def Let_def)
  have parent: "\<exists>R \<in> set (pi_Releases pinfo). ri_Name R = u \<and> rq_Name out \<in> ran (lookup (ri_Dependencies R))"
    if "u \<in> set (UpEdges g (rq_Name out))" for u
    using that by (auto simp: set_UpEdges g_def set_edges_initDeclaredEdges edges_initNodes)
  have each: "\<exists>R0 \<in> set (pi_Releases pinfo). \<exists>R \<in> set (pi_Releases pinfo).
       ri_Name R0 = ri_Name R \<and> rq_Name out \<in> ran (lookup (ri_Dependencies R))
       \<and> U = (toReleaseRequest R0)\<lparr>rq_Dependencies :=
                DeleteReleaseDependency (ri_Dependencies R0) (rq_ChartName out)\<rparr>"
    if "U \<in> set affected" for U
  proof -
    from that obtain u upper where u: "u \<in> set (UpEdges g (rq_Name out))"
      and b: "buildReleaseRequest pinfo u = Some upper"
      and U: "U = upper\<lparr>rq_Dependencies :=
                   DeleteReleaseDependency (rq_Dependencies upper) (rq_ChartName out)\<rparr>"
      unfolding affected_def using removeStream_member by blast
    from buildReleaseRequest_Some [OF b] obtain R0 where
      r0: "R0 \<in> set (pi_Releases pinfo)" "ri_Name R0 = u" "upper = toReleaseRequest R0" by blast
    from parent [OF u] obtain R where
      r: "R \<in> set (pi_Releases pinfo)" "ri_Name R = u" "rq_Name out \<in> ran (lookup (ri_Dependencies R))"
      by blast
    have "ri_Name R0 = ri_Name R \<and> rq_Name out \<in> ran (lookup (ri_Dependencies R))
       \<and> U = (toReleaseRequest R0)\<lparr>rq_Dependencies :=
                DeleteReleaseDependency (ri_Dependencies R0) (rq_ChartName out)\<rparr>"
      using r0 r U by (simp add: toReleaseRequest_fields)
    with r0(1) r(1) show ?thesis by blast
  qed
  have a: "\<forall>U \<in> set affected.
           \<not> hasKey (rq_Dependencies U) (rq_ChartName out)
           \<and> (\<exists>R \<in> set (pi_Releases pinfo).
                 ri_Name R = rq_Name U \<and> rq_Name out \<in> ran (lookup (ri_Dependencies R)))"
  proof
    fix U assume "U \<in> set affected"
    from each [OF this] show "\<not> hasKey (rq_Dependencies U) (rq_ChartName out)
           \<and> (\<exists>R \<in> set (pi_Releases pinfo).
                 ri_Name R = rq_Name U \<and> rq_Name out \<in> ran (lookup (ri_Dependencies R)))"
      by (auto simp: no_key_after_delete toReleaseRequest_fields)
  qed
  have b: "\<forall>U \<in> set affected.
             \<exists>R \<in> set (pi_Releases pinfo).
               rq_Name out \<in> ran (lookup (ri_Dependencies R))
               \<and> U = (toReleaseRequest R)\<lparr>rq_Dependencies :=
                        DeleteReleaseDependency (ri_Dependencies R) (rq_ChartName out)\<rparr>"
    if d: "distinct (map ri_Name (pi_Releases pinfo))"
  proof
    fix U assume "U \<in> set affected"
    from each [OF this] obtain R0 R where
      "R0 \<in> set (pi_Releases pinfo)" "R \<in> set (pi_Releases pinfo)" "ri_Name R0 = ri_Name R"
      "rq_Name out \<in> ran (lookup (ri_Dependencies R))"
      "U = (toReleaseRequest R0)\<lparr>rq_Dependencies :=
                DeleteReleaseDependency (ri_Dependencies R0) (rq_ChartName out)\<rparr>"
      by blast
    moreover from this have "R0 = R"
      using distinct_names_unique [OF d] by blast
    ultimately show "\<exists>R \<in> set (pi_Releases pinfo).
               rq_Name out \<in> ran (lookup (ri_Dependencies R))
               \<and> U = (toReleaseRequest R)\<lparr>rq_Dependencies :=
                        DeleteReleaseDependency (ri_Dependencies R) (rq_ChartName out)\<rparr>"
      by blast
  qed
  from res a b show ?thesis by blast
qed

theorem remove_affected_parents_witness:
  "distinct (map ri_Name (pi_Releases projectS4))
   \<and> brainFuckRuntimeDepParse quietEnv projectS4 releaseA True = Inr ([releaseBRemoved], releaseA)
   \<and> \<not> hasKey (rq_Dependencies releaseBRemoved) (rq_ChartName releaseA)
   \<and> rq_Name releaseA \<in> ran (lookup (ri_Dependencies releaseInfoB))
   \<and> releaseBRemoved = (toReleaseRequest releaseInfoB)\<lparr>rq_Dependencies :=
        DeleteReleaseDependency (ri_Dependencies releaseInfoB) (rq_ChartName releaseA)\<rparr>"
proof -
  have d: "distinct (map ri_Name (pi_Releases projectS4))"
    by (simp add: projectS4_def releaseInfoA_def releaseInfoB_def)
  have ev: "brainFuckRuntimeDepParse quietEnv projectS4 releaseA True = Inr ([releaseBRemoved], releaseA)"
    by code_simp
  from remove_affected_parents [of quietEnv projectS4 releaseA] d ev
  have "\<not> hasKey (rq_Dependencies releaseBRemoved) (rq_ChartName releaseA)"
    and "\<exists>R \<in> set (pi_Releases projectS4).
               rq_Name releaseA \<in> ran (lookup (ri_Dependencies R))
               \<and> releaseBRemoved = (toReleaseRequest R)\<lparr>rq_Dependencies :=
                        DeleteReleaseDependency (ri_Dependencies R) (rq_ChartName releaseA)\<rparr>"
    by auto
  moreover have "releaseBRemoved \<noteq> (toReleaseRequest releaseInfoA)\<lparr>rq_Dependencies :=
                        DeleteReleaseDependency (ri_Dependencies releaseInfoA) (rq_ChartName releaseA)\<rparr>"
    by (simp add: releaseBRemoved_def toReleaseRequest_def releaseInfoA_def)
  ultimately show ?thesis
    using d ev by (auto simp: projectS4_def)
qed

lemma fold_Connect_if:
  "set (edges (fold (\<lambda>x g'. if P x then Connect g' a b else g') xs g)) =
     set (edges g) \<union> (if \<exists>x \<in> set xs. P x then {(a, b)} else {})"
proof (induction xs arbitrary: g)
  case Nil
  show ?case by simp
next
  case (Cons x xs)
  show ?case
    by (cases "P x") (auto simp: Cons.IH set_edges_Connect)
qed

lemma connectUpper_edges:
  assumes "connectUpper e inc rels g = Inr g1"
  shows "set (edges g1) \<subseteq> set (edges g) \<union>
           {(ri_Name R, rq_Name inc) | R. R \<in> set rels
              \<and> (\<exists>subs. getAutoDependencies e (ri_RepoName R) (ri_ChartName R) (ri_ChartVersion R) = Inr subs
                    \<and> rq_ChartName inc \<in> set subs)
              \<and> \<not> hasKey (ri_Dependencies R) (rq_ChartName inc)}"
  using assms
proof (induction rels arbitrary: g)
  case Nil
  then show ?case by simp
next
  case (Cons R rels)
  from Cons.prems obtain subs where
    a: "getAutoDependencies e (ri_RepoName R) (ri_ChartName R) (ri_ChartVersion R) = Inr subs"
    and rest: "connectUpper e inc rels
            (fold (\<lambda>subChartName g'.
                     if subChartName = rq_ChartName inc
                        \<and> \<not> hasKey (ri_Dependencies R) subChartName
                     then Connect g' (ri_Name R) (rq_Name inc) else g')
                  subs g) = Inr g1"
    by (auto split: sum.splits)
  show ?case
  proof
    fix edge assume "edge \<in> set (edges g1)"
    with Cons.IH [OF rest] consider
      (old) "edge \<in> set (edges (fold (\<lambda>subChartName g'.
                     if subChartName = rq_ChartName inc
                        \<and> \<not> hasKey (ri_Dependencies R) subChartName
                     then Connect g' (ri_Name R) (rq_Name inc) else g')
                  subs g))"
      | (new) "edge \<in> {(ri_Name R, rq_Name inc) | R. R \<in> set rels
              \<and> (\<exists>subs. getAutoDependencies e (ri_RepoName R) (ri_ChartName R) (ri_ChartVersion R) = Inr subs
                    \<and> rq_ChartName inc \<in> set subs)
              \<and> \<not> hasKey (ri_Dependencies R) (rq_ChartName inc)}"
      by blast
    then show "edge \<in> set (edges g) \<union>
           {(ri_Name R', rq_Name inc) | R'. R' \<in> set (R # rels)
              \<and> (\<exists>subs. getAutoDependencies e (ri_RepoName R') (ri_ChartName R') (ri_ChartVersion R') = Inr subs
                    \<and> rq_ChartName inc \<in> set subs)
              \<and> \<not> hasKey (ri_Dependencies R') (rq_ChartName inc)}"
    proof cases
      case old
      then have "edge \<in> set (edges g) \<or>
          (edge = (ri_Name R, rq_Name inc) \<and> rq_ChartName inc \<in> set subs
             \<and> \<not> hasKey (ri_Dependencies R) (rq_ChartName inc))"
        unfolding fold_Connect_if by (auto split: if_splits)
      with a show ?thesis by auto
    next
      case new
      then show ?thesis by auto
    qed
  qed
qed

lemma fold_Connect_each:
  "set (edges (fold (\<lambda>x g'. if P x then Connect g' a (f x) else g') xs g)) =
     set (edges g) \<union> {(a, f x) | x. x \<in> set xs \<and> P x}"
proof (induction xs arbitrary: g)
  case Nil
  show ?case by simp
next
  case (Cons x xs)
  show ?case
    by (cases "P x") (auto simp: Cons.IH set_edges_Connect)
qed

lemma connectDown_edges:
  "set (edges (connectDown inc rels subs g)) \<subseteq> set (edges g) \<union>
     {(rq_Name inc, ri_Name R) | R. R \<in> set rels \<and> ri_ChartName R \<in> set subs
        \<and> \<not> hasKey (rq_Dependencies inc) (ri_ChartName R)}"
  unfolding connectDown_def
proof (induction subs arbitrary: g)
  case Nil
  show ?case by simp
next
  case (Cons s subs)
  show ?case
  proof (cases "hasKey (rq_Dependencies inc) s")
    case True
    with Cons.IH [of g] show ?thesis by auto
  next
    case False
    from Cons.IH [of "fold (\<lambda>helmRelease g'.
                          if s = ri_ChartName helmRelease
                          then Connect g' (rq_Name inc) (ri_Name helmRelease) else g')
                       rels g"] False
    show ?thesis by (auto simp: fold_Connect_each)
  qed
qed

lemma upperStream_member:
  assumes "U \<in> set (upperStream pinfo inc ups)"
  shows "\<exists>u \<in> set ups. \<exists>upper. buildReleaseRequest pinfo u = Some upper \<and> U = rewriteUpper inc upper"
  using assms by (induction ups) (auto split: option.splits)

lemma lookup_assignInit: "lookup (assignInit m k v) k = Some v"
  by (simp add: assignInit_def lookup_Some update_conv')

lemma rewriteUpper_hasKey: "hasKey (rq_Dependencies (rewriteUpper inc upper)) (rq_ChartName inc)"
  by (simp add: rewriteUpper_def hasKey_def lookup_assignInit)

lemma add_path_parents:
  assumes g1: "connectUpper e inc rels (Add (initDeclaredEdges rels (initNodes rels)) (rq_Name inc)) = Inr g1"
    and subs: "getAutoDependencies e (rq_RepoName inc) (rq_ChartName inc) (rq_ChartVersion inc) = Inr subs"
    and u: "u \<in> set (UpEdges (connectDown inc rels subs g1) (rq_Name inc))"
  shows "\<exists>R \<in> set rels. ri_Name R = u \<and> isParentOf e inc R"
proof -
  let ?edge = "(u, rq_Name inc)"
  from u have "?edge \<in> set (edges (connectDown inc rels subs g1))"
    by (simp add: set_UpEdges)
  with connectDown_edges [of inc rels subs g1] consider
    (down) "?edge \<in> {(rq_Name inc, ri_Name R) | R. R \<in> set rels \<and> ri_ChartName R \<in> set subs
        \<and> \<not> hasKey (rq_Dependencies inc) (ri_ChartName R)}"
    | (g1) "?edge \<in> set (edges g1)" by blast
  then show ?thesis
  proof cases
    case down
    with subs show ?thesis
      by (auto simp: isParentOf_def)
  next
    case g1': g1
    with connectUpper_edges [OF g1] consider
      (upper) "?edge \<in> {(ri_Name R, rq_Name inc) | R. R \<in> set rels
              \<and> (\<exists>subs. getAutoDependencies e (ri_RepoName R) (ri_ChartName R) (ri_ChartVersion R) = Inr subs
                    \<and> rq_ChartName inc \<in> set subs)
              \<and> \<not> hasKey (ri_Dependencies R) (rq_ChartName inc)}"
      | (declared) "?edge \<in> set (edges (Add (initDeclaredEdges rels (initNodes rels)) (rq_Name inc)))"
      by blast
    then show ?thesis
    proof cases
      case upper
      then show ?thesis
        by (auto simp: isParentOf_def)
    next
      case declared
      then show ?thesis
        by (auto simp: edges_Add set_edges_initDeclaredEdges edges_initNodes isParentOf_def)
    qed
  qed
qed

text \<open>
  Claim C4, as amended. For an add or upgrade invocation (isRemove = false), every
  release U of the affected list is the request projection of a release R0 of the
  project, rewritten by the upper-stream step, and a release R of the same name (R0
  itself when the names of the project's releases are pairwise distinct) is a parent of
  the incoming release in the graph (\<open>isParentOf\<close>): R already lists the incoming
  release's name, or R's chart declares the incoming chart and R has no entry for it,
  or R bears the incoming name itself. After the call U has an entry keyed by the
  incoming chart name: if R0 had one, U is R0's projection unchanged; if not, the entry
  is {incoming.chartName: incoming.name}. The claim as stated fails for the parents that
  already list the incoming release: see the counterexample after the witness.
\<close>

theorem add_affected_parents:
  assumes res: "brainFuckRuntimeDepParse e pinfo inc False = Inr (affected, inc')"
    and U: "U \<in> set affected"
  shows "\<exists>R0 \<in> set (pi_Releases pinfo). \<exists>R \<in> set (pi_Releases pinfo).
           ri_Name R = ri_Name R0
           \<and> isParentOf e inc R
           \<and> (distinct (map ri_Name (pi_Releases pinfo)) \<longrightarrow> R = R0)
           \<and> U = rewriteUpper inc (toReleaseRequest R0)
           \<and> hasKey (rq_Dependencies U) (rq_ChartName inc)
           \<and> (if hasKey (ri_Dependencies R0) (rq_ChartName inc)
               then U = toReleaseRequest R0
               else lookup (rq_Dependencies U) (rq_ChartName inc) = Some (rq_Name inc))"
proof -
  let ?rels = "pi_Releases pinfo"
  from res obtain g1 subs where
    g1: "connectUpper e inc ?rels (Add (initDeclaredEdges ?rels (initNodes ?rels)) (rq_Name inc)) = Inr g1"
    and subs: "getAutoDependencies e (rq_RepoName inc) (rq_ChartName inc) (rq_ChartVersion inc) = Inr subs"
    and aff: "affected = upperStream pinfo inc (UpEdges (connectDown inc ?rels subs g1) (rq_Name inc))"
    by (auto simp: brainFuckRuntimeDepParse_def Let_def split: sum.splits)
  from U aff obtain u upper where
    u: "u \<in> set (UpEdges (connectDown inc ?rels subs g1) (rq_Name inc))"
    and b: "buildReleaseRequest pinfo u = Some upper"
    and Ueq: "U = rewriteUpper inc upper"
    using upperStream_member by blast
  from buildReleaseRequest_Some [OF b] obtain R0 where
    r0: "R0 \<in> set ?rels" "ri_Name R0 = u" "upper = toReleaseRequest R0" by blast
  from add_path_parents [OF g1 subs u] obtain R where
    r: "R \<in> set ?rels" "ri_Name R = u" "isParentOf e inc R" by blast
  have same: "distinct (map ri_Name ?rels) \<longrightarrow> R = R0"
    using distinct_names_unique [OF _ r(1) r0(1)] r0(2) r(2) by simp
  have "ri_Name R = ri_Name R0 \<and> isParentOf e inc R
           \<and> (distinct (map ri_Name ?rels) \<longrightarrow> R = R0)
           \<and> U = rewriteUpper inc (toReleaseRequest R0)
           \<and> hasKey (rq_Dependencies U) (rq_ChartName inc)
           \<and> (if hasKey (ri_Dependencies R0) (rq_ChartName inc)
               then U = toReleaseRequest R0
               else lookup (rq_Dependencies U) (rq_ChartName inc) = Some (rq_Name inc))"
    using r(2,3) r0(2,3) same Ueq rewriteUpper_hasKey [of inc upper]
    by (simp add: toReleaseRequest_fields rewriteUpper_def lookup_assignInit)
  with r0(1) r(1) show ?thesis by blast
qed

theorem add_affected_parents_witness:
  "brainFuckRuntimeDepParse envS3 projectS3 releaseHdfs False = Inr ([releaseHiveRewired], releaseHdfs)
   \<and> distinct (map ri_Name (pi_Releases projectS3))
   \<and> releaseHiveRewired \<in> set [releaseHiveRewired]
   \<and> isParentOf envS3 releaseHdfs releaseInfoHive
   \<and> releaseHiveRewired = rewriteUpper releaseHdfs (toReleaseRequest releaseInfoHive)
   \<and> lookup (rq_Dependencies releaseHiveRewired) ''hdfs'' = Some ''hdfs''"
proof -
  have ev: "brainFuckRuntimeDepParse envS3 projectS3 releaseHdfs False =
              Inr ([releaseHiveRewired], releaseHdfs)"
    by code_simp
  have d: "distinct (map ri_Name (pi_Releases projectS3))"
    by code_simp
  have m: "releaseHiveRewired \<in> set [releaseHiveRewired]"
    by simp
  have rels: "set (pi_Releases projectS3) = {releaseInfoHive}"
    by (simp add: projectS3_def)
  from add_affected_parents [OF ev m]
  have "isParentOf envS3 releaseHdfs releaseInfoHive
      \<and> releaseHiveRewired = rewriteUpper releaseHdfs (toReleaseRequest releaseInfoHive)"
    unfolding rels by simp
  moreover have "lookup (rq_Dependencies releaseHiveRewired) ''hdfs'' = Some ''hdfs''"
    by code_simp
  ultimately show ?thesis
    using ev d m by simp
qed

theorem add_affected_counterexample:
  "brainFuckRuntimeDepParse quietEnv projectS4 releaseA False =
     Inr ([toReleaseRequest releaseInfoB], releaseA)
   \<and> getAutoDependencies quietEnv (ri_RepoName releaseInfoB) (ri_ChartName releaseInfoB)
        (ri_ChartVersion releaseInfoB) = Inr []
   \<and> hasKey (ri_Dependencies releaseInfoB) (rq_ChartName releaseA)
   \<and> brainFuckRuntimeDepParse quietEnv projectTwoKeys releaseA False =
     Inr ([toReleaseRequest releaseInfoB2], releaseA)
   \<and> lookup (rq_Dependencies (toReleaseRequest releaseInfoB2)) (rq_ChartName releaseA) = Some ''a0''
   \<and> rq_Name releaseA = ''a''"
  by code_simp

section \<open>The walk of the graph\<close>

lemma Walk_Nil: "Walk pick g cb [] visited s = Inr s"
  by (subst Walk.simps) simp

lemma Walk_stuck:
  "pending \<noteq> [] \<Longrightarrow> readyVertices g pending visited = [] \<Longrightarrow>
     Walk pick g cb pending visited s = Inl (Collaborator ''cycle'')"
  by (subst Walk.simps) simp

lemma Walk_step:
  assumes "pending \<noteq> []"
    and "readyVertices g pending visited \<noteq> []"
    and "v = chosen pick (readyVertices g pending visited)"
  shows "Walk pick g cb pending visited s =
           (case cb v s of
              Inl err \<Rightarrow> Inl err
            | Inr s' \<Rightarrow> Walk pick g cb (removeAll v pending) (visited @ [v]) s')"
  unfolding assms(3) using assms(1,2) by (subst Walk.simps) (simp add: Let_def)

lemma chosen_member:
  assumes "ready \<noteq> []"
  shows "chosen pick ready \<in> set ready"
proof -
  have "0 < length ready"
    using assms by simp
  then have "pick ready mod length ready < length ready"
    by (rule mod_less_divisor)
  then show ?thesis
    unfolding chosen_def by (rule nth_mem)
qed

lemma chosen_ready:
  assumes "readyVertices g pending visited \<noteq> []"
    and "v = chosen pick (readyVertices g pending visited)"
  shows "v \<in> set pending" and "set (DownEdges g v) \<subseteq> set visited"
proof -
  have "v \<in> set (readyVertices g pending visited)"
    unfolding assms(2) using assms(1) by (rule chosen_member)
  then have "v \<in> set pending \<and> list_all (\<lambda>d. d \<in> set visited) (DownEdges g v)"
    unfolding readyVertices_def by (simp only: set_filter mem_Collect_eq)
  then show "v \<in> set pending" and "set (DownEdges g v) \<subseteq> set visited"
    by (simp_all only: list_all_iff subset_iff) blast
qed

lemma Walk_invariant:
  assumes "Walk pick g cb pending visited s = Inr s'"
    and "I visited s"
    and "set pending \<inter> set visited = {}"
    and "set pending \<subseteq> V"
    and "\<And>v vis t t'. I vis t \<Longrightarrow> v \<in> V \<Longrightarrow> v \<notin> set vis \<Longrightarrow>
           set (DownEdges g v) \<subseteq> set vis \<Longrightarrow> cb v t = Inr t' \<Longrightarrow> I (vis @ [v]) t'"
  shows "\<exists>vis'. I vis' s' \<and> set vis' = set visited \<union> set pending"
  using assms
proof (induction pick g cb pending visited s rule: Walk.induct)
  case (1 pick g cb pending visited s)
  show ?case
  proof (cases "pending = []")
    case True
    with "1.prems"(1,2) show ?thesis by (auto simp: Walk_Nil)
  next
    case False
    define v where "v = chosen pick (readyVertices g pending visited)"
    have ready: "readyVertices g pending visited \<noteq> []"
    proof
      assume "readyVertices g pending visited = []"
      from Walk_stuck [OF False this, of pick cb s] "1.prems"(1) show False by simp
    qed
    from "1.prems"(1) obtain s1 where
      cb: "cb v s = Inr s1"
      and rest: "Walk pick g cb (removeAll v pending) (visited @ [v]) s1 = Inr s'"
      unfolding Walk_step [OF False ready v_def] by (cases "cb v s") simp_all
    note v = chosen_ready [OF ready v_def]
    have fresh: "v \<notin> set visited"
      using v(1) "1.prems"(3) by auto
    have inV: "v \<in> V"
      using v(1) "1.prems"(4) by auto
    have inv: "I (visited @ [v]) s1"
      using "1.prems"(5) [OF "1.prems"(2) inV fresh v(2) cb] .
    have sub: "set (removeAll v pending) \<subseteq> V"
      using "1.prems"(4) by auto
    have disj: "set (removeAll v pending) \<inter> set (visited @ [v]) = {}"
      using "1.prems"(3) by auto
    have "\<exists>vis'. I vis' s' \<and> set vis' = set (visited @ [v]) \<union> set (removeAll v pending)"
      by (rule "1.IH" [OF False ready v_def cb rest inv disj sub]) (rule "1.prems"(5))
    then obtain vis' where "I vis' s'"
      and "set vis' = set (visited @ [v]) \<union> set (removeAll v pending)"
      by blast
    with v(1) show ?thesis by auto
  qed
qed

lemma exists_ready:
  assumes "acyclic (set (edges g))"
    and "pending \<noteq> []"
    and "\<forall>v \<in> set pending. set (DownEdges g v) \<subseteq> set pending \<union> set visited"
  shows "readyVertices g pending visited \<noteq> []"
proof -
  have "wf ((set (edges g))\<inverse>)"
    using assms(1) by (simp add: finite_acyclic_wf_converse)
  moreover from assms(2) obtain x where "x \<in> set pending"
    by (cases pending) auto
  ultimately obtain z where z: "z \<in> set pending"
    and min: "\<And>y. (y, z) \<in> (set (edges g))\<inverse> \<Longrightarrow> y \<notin> set pending"
    by (rule wfE_min) blast
  have "set (DownEdges g z) \<subseteq> set visited"
    using min assms(3) z by (auto simp: set_DownEdges)
  with z have "z \<in> set (readyVertices g pending visited)"
    by (auto simp: readyVertices_def list_all_iff)
  then show ?thesis by auto
qed

lemma Walk_total:
  assumes "acyclic (set (edges g))"
    and "\<forall>v \<in> set pending. set (DownEdges g v) \<subseteq> set pending \<union> set visited"
    and "Q s"
    and "set pending \<subseteq> V"
    and "\<And>v t. Q t \<Longrightarrow> v \<in> V \<Longrightarrow> \<exists>t'. cb v t = Inr t' \<and> Q t'"
  shows "\<exists>s'. Walk pick g cb pending visited s = Inr s'"
  using assms
proof (induction pick g cb pending visited s rule: Walk.induct)
  case (1 pick g cb pending visited s)
  show ?case
  proof (cases "pending = []")
    case True
    then show ?thesis by (simp add: Walk_Nil)
  next
    case False
    define v where "v = chosen pick (readyVertices g pending visited)"
    have ready: "readyVertices g pending visited \<noteq> []"
      using exists_ready [OF "1.prems"(1) False "1.prems"(2)] .
    have "v \<in> V"
      using chosen_ready(1) [OF ready v_def] "1.prems"(4) by auto
    from "1.prems"(5) [OF "1.prems"(3) this] obtain s1 where cb: "cb v s = Inr s1" and q: "Q s1"
      by blast
    have sub: "set (removeAll v pending) \<subseteq> V"
      using "1.prems"(4) by auto
    have closed: "\<forall>u \<in> set (removeAll v pending).
        set (DownEdges g u) \<subseteq> set (removeAll v pending) \<union> set (visited @ [v])"
      using "1.prems"(2) by auto
    have "\<exists>s'. Walk pick g cb (removeAll v pending) (visited @ [v]) s1 = Inr s'"
      by (rule "1.IH" [OF False ready v_def cb "1.prems"(1) closed q sub]) (rule "1.prems"(5))
    then show ?thesis
      by (simp add: Walk_step [OF False ready v_def] cb)
  qed
qed

lemma Walk_error:
  assumes "Walk pick g cb pending visited s = Inl err"
    and "acyclic (set (edges g))"
    and "\<forall>v \<in> set pending. set (DownEdges g v) \<subseteq> set pending \<union> set visited"
  shows "\<exists>v t. cb v t = Inl err"
  using assms
proof (induction pick g cb pending visited s rule: Walk.induct)
  case (1 pick g cb pending visited s)
  have False: "pending \<noteq> []"
    using "1.prems"(1) by (auto simp: Walk_Nil)
  define v where "v = chosen pick (readyVertices g pending visited)"
  have ready: "readyVertices g pending visited \<noteq> []"
    using exists_ready [OF "1.prems"(2) False "1.prems"(3)] .
  show ?case
  proof (cases "cb v s")
    case (Inl err')
    with "1.prems"(1) have "err' = err"
      by (simp add: Walk_step [OF False ready v_def])
    with Inl show ?thesis by blast
  next
    case (Inr s1)
    with "1.prems"(1)
    have rest: "Walk pick g cb (removeAll v pending) (visited @ [v]) s1 = Inl err"
      by (simp add: Walk_step [OF False ready v_def])
    have closed: "\<forall>u \<in> set (removeAll v pending).
        set (DownEdges g u) \<subseteq> set (removeAll v pending) \<union> set (visited @ [v])"
      using "1.prems"(3) by auto
    from "1.IH" [OF False ready v_def Inr rest "1.prems"(2) closed] show ?thesis .
  qed
qed

section \<open>The graph of the chart-time resolver\<close>

lemma vertices_Connect: "vertices (Connect g a b) = vertices g"
  by (simp add: Connect_def)

lemma vertices_fold_Add: "vertices (fold (\<lambda>i g. Add g i) [0 ..< n] emptyGraph) = [0 ..< n]"
  by (induction n) (simp_all add: emptyGraph_def Add_def)

lemma edges_fold_Add: "edges (fold (\<lambda>i g. Add g i) xs g) = edges g"
  by (induction xs arbitrary: g) (simp_all add: edges_Add)

lemma vertices_connectSubCharts: "vertices (connectSubCharts m i r subs g) = vertices g"
  unfolding connectSubCharts_def
  by (induction subs arbitrary: g) (simp_all add: vertices_Connect split: option.splits)

lemma set_edges_connectSubCharts:
  "set (edges (connectSubCharts m i r subs g)) =
     set (edges g) \<union> {(i, j) | j s. s \<in> set subs \<and> m s = Some j \<and> \<not> hasKey (rq_Dependencies r) s}"
  unfolding connectSubCharts_def
proof (induction subs arbitrary: g)
  case Nil
  show ?case by simp
next
  case (Cons s subs)
  show ?case
    by (cases "m s"; cases "hasKey (rq_Dependencies r) s")
      (auto simp: Cons.IH set_edges_Connect)
qed

lemma vertices_initEdges:
  "initEdges e m xs g = Inr g' \<Longrightarrow> vertices g' = vertices g"
proof (induction xs arbitrary: g)
  case Nil
  then show ?case by simp
next
  case (Cons x xs)
  obtain i r where x: "x = (i, r)" by (cases x)
  from Cons.prems obtain subs where
    "initEdges e m xs (connectSubCharts m i r subs g) = Inr g'"
    unfolding x by (auto split: sum.splits)
  from Cons.IH [OF this] show ?case
    by (simp add: vertices_connectSubCharts)
qed

lemma set_edges_initEdges:
  "initEdges e m xs g = Inr g' \<Longrightarrow>
     set (edges g') = set (edges g) \<union>
       {(i, j) | i j r s subs. (i, r) \<in> set xs
          \<and> getAutoDependencies e (rq_RepoName r) (rq_ChartName r) (rq_ChartVersion r) = Inr subs
          \<and> s \<in> set subs \<and> m s = Some j \<and> \<not> hasKey (rq_Dependencies r) s}"
proof (induction xs arbitrary: g)
  case Nil
  then show ?case by simp
next
  case (Cons x xs)
  obtain i r where x: "x = (i, r)" by (cases x)
  from Cons.prems obtain subs where
    a: "getAutoDependencies e (rq_RepoName r) (rq_ChartName r) (rq_ChartVersion r) = Inr subs"
    and rest: "initEdges e m xs (connectSubCharts m i r subs g) = Inr g'"
    unfolding x by (auto split: sum.splits)
  show ?case
    unfolding Cons.IH [OF rest] set_edges_connectSubCharts x
    using a by auto
qed

lemma projectParamsMap_aux:
  "fold (\<lambda>(i, releaseInfo) m. m(rq_ChartName releaseInfo \<mapsto> i)) (List.enumerate k xs) m0 s = Some j \<Longrightarrow>
     m0 s = Some j \<or> (k \<le> j \<and> j < k + length xs \<and> rq_ChartName (xs ! (j - k)) = s)"
proof (induction xs arbitrary: k m0)
  case Nil
  then show ?case by simp
next
  case (Cons x xs)
  from Cons.prems have
    "fold (\<lambda>(i, releaseInfo) m. m(rq_ChartName releaseInfo \<mapsto> i)) (List.enumerate (Suc k) xs)
       (m0(rq_ChartName x \<mapsto> k)) s = Some j"
    by (simp del: fun_upd_apply)
  from Cons.IH [OF this] show ?case
    by (auto simp: nth_Cons' Suc_diff_le split: if_splits)
qed

lemma projectParamsMap_Some:
  assumes "projectParamsMap rels s = Some j"
  shows "j < length rels" and "rq_ChartName (rels ! j) = s"
  using projectParamsMap_aux [of 0 rels Map.empty s j] assms
  by (simp_all add: projectParamsMap_def)

lemma chartGraph_vertices:
  assumes "chartGraph e rels = Inr g"
  shows "vertices g = [0 ..< length rels]"
  using vertices_initEdges [OF assms [unfolded chartGraph_def]]
  by (simp add: vertices_fold_Add)

lemma chartGraph_edges:
  assumes "chartGraph e rels = Inr g"
  shows "set (edges g) =
           {(i, j) | i j s subs. i < length rels
              \<and> getAutoDependencies e (rq_RepoName (rels ! i)) (rq_ChartName (rels ! i))
                    (rq_ChartVersion (rels ! i)) = Inr subs
              \<and> s \<in> set subs \<and> projectParamsMap rels s = Some j
              \<and> \<not> hasKey (rq_Dependencies (rels ! i)) s}"
  unfolding set_edges_initEdges [OF assms [unfolded chartGraph_def]]
  by (auto simp: edges_fold_Add emptyGraph_def in_set_enumerate_eq)

section \<open>Writes into a dependencies map\<close>

lemma assignAll_Some: "\<exists>al'. assignAll (Some al) kvs = Inr (Some al')"
  by (induction kvs arbitrary: al) auto

lemma assignAll_None:
  "assignAll None kvs =
     (if kvs = [] then Inr None else Inl (RuntimePanic ''assignment to entry in nil map''))"
  by (cases kvs) auto

lemma assignAll_Inl:
  assumes "assignAll m kvs = Inl err"
  shows "err = RuntimePanic ''assignment to entry in nil map'' \<and> m = None \<and> kvs \<noteq> []"
proof (cases m)
  case None
  with assms show ?thesis by (simp add: assignAll_None split: if_splits)
next
  case (Some al)
  with assms assignAll_Some [of al kvs] show ?thesis by auto
qed

lemma assignAll_nil_iff:
  assumes "assignAll m kvs = Inr m'"
  shows "(m' = None) = (m = None)"
proof (cases m)
  case None
  with assms show ?thesis by (simp add: assignAll_None split: if_splits)
next
  case (Some al)
  with assms assignAll_Some [of al kvs] show ?thesis by auto
qed

lemma assignAll_other:
  assumes "assignAll m kvs = Inr m'" and "k \<notin> fst ` set kvs"
  shows "lookup m' k = lookup m k"
  using assms
proof (induction kvs arbitrary: m)
  case Nil
  then show ?case by simp
next
  case (Cons kv kvs)
  obtain k0 v0 where kv: "kv = (k0, v0)" by (cases kv)
  from Cons.prems(1) obtain al where m: "m = Some al"
    and rest: "assignAll (Some (AList.update k0 v0 al)) kvs = Inr m'"
    unfolding kv by (cases m) auto
  from Cons.prems(2) have "k \<noteq> k0" and "k \<notin> fst ` set kvs"
    unfolding kv by auto
  with Cons.IH [OF rest] show ?case
    by (simp add: m lookup_def update_conv')
qed

lemma assignAll_written:
  assumes "assignAll m kvs = Inr m'"
    and "(k, v) \<in> set kvs"
    and "\<forall>(k', v') \<in> set kvs. k' = k \<longrightarrow> v' = v"
  shows "lookup m' k = Some v"
  using assms
proof (induction kvs arbitrary: m)
  case Nil
  then show ?case by simp
next
  case (Cons kv kvs)
  obtain k0 v0 where kv: "kv = (k0, v0)" by (cases kv)
  from Cons.prems(1) obtain al where m: "m = Some al"
    and rest: "assignAll (Some (AList.update k0 v0 al)) kvs = Inr m'"
    unfolding kv by (cases m) auto
  have fn: "\<forall>(k', v') \<in> set kvs. k' = k \<longrightarrow> v' = v"
    using Cons.prems(3) by auto
  show ?case
  proof (cases "(k, v) \<in> set kvs")
    case True
    from Cons.IH [OF rest True fn] show ?thesis .
  next
    case False
    with Cons.prems(2) have here: "k0 = k" "v0 = v"
      unfolding kv by auto
    from False fn have "k \<notin> fst ` set kvs"
      by force
    from assignAll_other [OF rest this] show ?thesis
      by (simp add: here lookup_def update_conv')
  qed
qed

section \<open>The walk of the chart-time resolver\<close>

lemma augmented_fields:
  assumes "augmented rels g i r"
  shows "rq_ChartName r = rq_ChartName (rels ! i)" and "rq_Name r = rq_Name (rels ! i)"
  using assms by (auto simp: augmented_def)

lemma chartWalkInv_initial: "chartWalkInv rels g [] (rels, [])"
  by (simp add: chartWalkInv_def)

lemma chartWalkInvD:
  assumes "chartWalkInv rels g vis (store, parsed)"
  shows "parsed = vis" and "distinct vis" and "length store = length rels"
    and "\<And>i. i < length rels \<Longrightarrow> i \<in> set vis \<Longrightarrow> augmented rels g i (store ! i)"
    and "\<And>i. i < length rels \<Longrightarrow> i \<notin> set vis \<Longrightarrow> store ! i = rels ! i"
    and "\<And>k. k < length vis \<Longrightarrow> set (DownEdges g (vis ! k)) \<subseteq> set (take k vis)"
    and "set vis \<subseteq> {..< length rels}"
proof -
  from assms have c: "parsed = vis \<and> distinct vis \<and> length store = length rels
      \<and> (\<forall>i < length rels. i \<in> set vis \<longrightarrow> augmented rels g i (store ! i))
      \<and> (\<forall>i < length rels. i \<notin> set vis \<longrightarrow> store ! i = rels ! i)
      \<and> (\<forall>k < length vis. set (DownEdges g (vis ! k)) \<subseteq> set (take k vis))
      \<and> set vis \<subseteq> {..< length rels}"
    unfolding chartWalkInv_def fst_conv snd_conv .
  from c show "parsed = vis" by (rule conjunct1)
  from c show "distinct vis" by blast
  from c show "length store = length rels" by blast
  from c show "\<And>i. i < length rels \<Longrightarrow> i \<in> set vis \<Longrightarrow> augmented rels g i (store ! i)" by blast
  from c show "\<And>i. i < length rels \<Longrightarrow> i \<notin> set vis \<Longrightarrow> store ! i = rels ! i" by blast
  from c show "\<And>k. k < length vis \<Longrightarrow> set (DownEdges g (vis ! k)) \<subseteq> set (take k vis)" by blast
  from c show "set vis \<subseteq> {..< length rels}" by blast
qed

lemma chartWalkInvI:
  assumes "parsed = vis" and "distinct vis" and "length store = length rels"
    and "\<And>i. i < length rels \<Longrightarrow> i \<in> set vis \<Longrightarrow> augmented rels g i (store ! i)"
    and "\<And>i. i < length rels \<Longrightarrow> i \<notin> set vis \<Longrightarrow> store ! i = rels ! i"
    and "\<And>k. k < length vis \<Longrightarrow> set (DownEdges g (vis ! k)) \<subseteq> set (take k vis)"
    and "set vis \<subseteq> {..< length rels}"
  shows "chartWalkInv rels g vis (store, parsed)"
  unfolding chartWalkInv_def fst_conv snd_conv using assms by blast

lemma visitRelease_step:
  assumes inv: "chartWalkInv rels g vis st"
    and v: "v \<in> {..< length rels}" "v \<notin> set vis" "set (DownEdges g v) \<subseteq> set vis"
    and cb: "visitRelease g v st = Inr st'"
  shows "chartWalkInv rels g (vis @ [v]) st'"
proof -
  obtain store parsed where st: "st = (store, parsed)" by (cases st)
  note d = chartWalkInvD [OF inv [unfolded st]]
  have vlt: "v < length rels"
    using v(1) by simp
  have here: "store ! v = rels ! v"
    using d(5) [OF vlt v(2)] .
  have child: "(rq_ChartName (store ! c), rq_Name (store ! c)) =
               (rq_ChartName (rels ! c), rq_Name (rels ! c))"
    if "c \<in> set (DownEdges g v)" for c
  proof -
    from that v(3) have c: "c \<in> set vis" by auto
    with d(7) have "c < length rels" by auto
    from d(4) [OF this c] show ?thesis by (simp add: augmented_fields)
  qed
  have pairs: "map (\<lambda>dv. (rq_ChartName (store ! dv), rq_Name (store ! dv))) (DownEdges g v) =
               inferred rels g v"
    unfolding inferred_def by (rule map_cong [OF refl]) (rule child)
  from cb obtain deps where
    a: "assignAll (rq_Dependencies (rels ! v)) (inferred rels g v) = Inr deps"
    and st': "st' = (store[v := (rels ! v)\<lparr>rq_Dependencies := deps\<rparr>], vis @ [v])"
    by (cases "assignAll (rq_Dependencies (rels ! v)) (inferred rels g v)")
       (simp_all add: visitRelease_def st here pairs d(1))
  show ?thesis
    unfolding st'
  proof (rule chartWalkInvI)
    show "vis @ [v] = vis @ [v]" by (rule refl)
    show "distinct (vis @ [v])"
      using d(2) v(2) by simp
    show "length (store[v := (rels ! v)\<lparr>rq_Dependencies := deps\<rparr>]) = length rels"
      using d(3) by simp
    show "augmented rels g i (store[v := (rels ! v)\<lparr>rq_Dependencies := deps\<rparr>] ! i)"
      if i: "i < length rels" "i \<in> set (vis @ [v])" for i
    proof (cases "i = v")
      case True
      have "augmented rels g v ((rels ! v)\<lparr>rq_Dependencies := deps\<rparr>)"
        unfolding augmented_def using a by blast
      with True vlt d(3) show ?thesis by simp
    next
      case False
      with i(2) have "i \<in> set vis" by simp
      from d(4) [OF i(1) this] False show ?thesis by simp
    qed
    show "store[v := (rels ! v)\<lparr>rq_Dependencies := deps\<rparr>] ! i = rels ! i"
      if i: "i < length rels" "i \<notin> set (vis @ [v])" for i
    proof -
      from i(2) have "i \<noteq> v" "i \<notin> set vis" by simp_all
      with d(5) [OF i(1)] show ?thesis by simp
    qed
    show "set (DownEdges g ((vis @ [v]) ! k)) \<subseteq> set (take k (vis @ [v]))"
      if k: "k < length (vis @ [v])" for k
    proof (cases "k < length vis")
      case True
      with d(6) [OF True] show ?thesis by (simp add: nth_append)
    next
      case False
      with k have "k = length vis" by simp
      with v(3) show ?thesis by simp
    qed
    show "set (vis @ [v]) \<subseteq> {..< length rels}"
      using d(7) vlt by simp
  qed
qed

lemma chartGraph_closed:
  assumes "chartGraph e rels = Inr g"
  shows "\<forall>v \<in> set (vertices g). set (DownEdges g v) \<subseteq> set (vertices g) \<union> set []"
  using projectParamsMap_Some(1)
  by (auto simp: chartGraph_vertices [OF assms] set_DownEdges chartGraph_edges [OF assms])

lemma chartDepWalk_Inr:
  assumes "chartDepWalk e rels = Inr st"
  shows "\<exists>g r. chartGraph e rels = Inr g \<and> Root g = Inr r
           \<and> chartWalkInv rels g (snd st) st \<and> set (snd st) = {..< length rels}"
proof -
  from assms obtain g where g: "chartGraph e rels = Inr g"
    by (cases "chartGraph e rels") (simp_all add: chartDepWalk_def)
  from assms obtain r where r: "Root g = Inr r"
    by (cases "Root g") (simp_all add: chartDepWalk_def g)
  from assms have w: "Walk (schedule e) g (visitRelease g) (vertices g) [] (rels, []) = Inr st"
    by (simp add: chartDepWalk_def g r)
  have "\<exists>vis'. chartWalkInv rels g vis' st \<and> set vis' = set [] \<union> set (vertices g)"
  proof (rule Walk_invariant [OF w, where V = "{..< length rels}"])
    show "chartWalkInv rels g [] (rels, [])"
      by (rule chartWalkInv_initial)
    show "set (vertices g) \<inter> set [] = {}"
      by simp
    show "set (vertices g) \<subseteq> {..< length rels}"
      by (auto simp: chartGraph_vertices [OF g])
    show "chartWalkInv rels g (vis @ [v]) t'"
      if "chartWalkInv rels g vis t" "v \<in> {..< length rels}" "v \<notin> set vis"
        "set (DownEdges g v) \<subseteq> set vis" "visitRelease g v t = Inr t'" for v vis t t'
      using that by (rule visitRelease_step)
  qed
  then obtain vis' where i: "chartWalkInv rels g vis' st" and s: "set vis' = set (vertices g)"
    by auto
  from i have "snd st = vis'"
    unfolding chartWalkInv_def by (rule conjunct1)
  moreover have "set (vertices g) = {..< length rels}"
    by (auto simp: chartGraph_vertices [OF g])
  ultimately show ?thesis
    using i s g r by simp
qed

lemma visitRelease_total:
  assumes q: "nilSafe rels st"
    and v: "v \<in> {..< length rels}"
    and safe: "DownEdges g v \<noteq> [] \<longrightarrow> rq_Dependencies (rels ! v) \<noteq> None"
  shows "\<exists>st'. visitRelease g v st = Inr st' \<and> nilSafe rels st'"
proof -
  obtain store parsed where st: "st = (store, parsed)" by (cases st)
  from q have len: "length store = length rels"
    and nil: "\<And>i. i < length rels \<Longrightarrow>
                (rq_Dependencies (store ! i) = None) = (rq_Dependencies (rels ! i) = None)"
    unfolding nilSafe_def st fst_conv by blast+
  let ?pairs = "map (\<lambda>dv. (rq_ChartName (store ! dv), rq_Name (store ! dv))) (DownEdges g v)"
  have vlt: "v < length rels"
    using v by simp
  have "\<exists>deps. assignAll (rq_Dependencies (store ! v)) ?pairs = Inr deps"
  proof (cases "rq_Dependencies (store ! v)")
    case None
    with nil [OF vlt] safe have "DownEdges g v = []" by auto
    with None show ?thesis by simp
  next
    case (Some al)
    with assignAll_Some [of al ?pairs] show ?thesis by auto
  qed
  then obtain deps where a: "assignAll (rq_Dependencies (store ! v)) ?pairs = Inr deps"
    by blast
  have r: "visitRelease g v st = Inr (store[v := (store ! v)\<lparr>rq_Dependencies := deps\<rparr>], parsed @ [v])"
    by (simp add: visitRelease_def st a)
  have "(rq_Dependencies (store[v := (store ! v)\<lparr>rq_Dependencies := deps\<rparr>] ! i) = None) =
        (rq_Dependencies (rels ! i) = None)" if i: "i < length rels" for i
  proof (cases "i = v")
    case True
    with assignAll_nil_iff [OF a] nil [OF vlt] vlt len show ?thesis by simp
  next
    case False
    with nil [OF i] show ?thesis by simp
  qed
  then have "nilSafe rels (store[v := (store ! v)\<lparr>rq_Dependencies := deps\<rparr>], parsed @ [v])"
    unfolding nilSafe_def fst_conv using len by simp
  with r show ?thesis by blast
qed

lemma visitRelease_Inl:
  assumes "visitRelease g v st = Inl err"
  shows "err = RuntimePanic ''assignment to entry in nil map''"
proof -
  obtain store parsed where st: "st = (store, parsed)" by (cases st)
  let ?pairs = "map (\<lambda>dv. (rq_ChartName (store ! dv), rq_Name (store ! dv))) (DownEdges g v)"
  from assms have "assignAll (rq_Dependencies (store ! v)) ?pairs = Inl err"
    by (cases "assignAll (rq_Dependencies (store ! v)) ?pairs") (simp_all add: visitRelease_def st)
  from assignAll_Inl [OF this] show ?thesis by simp
qed

lemma chartDepWalk_cases:
  assumes g: "chartGraph e rels = Inr g" and r: "Root g = Inr root"
    and dag: "acyclic (set (edges g))"
  shows "(\<exists>st. chartDepWalk e rels = Inr st) \<or>
         chartDepWalk e rels = Inl (RuntimePanic ''assignment to entry in nil map'')"
proof (cases "chartDepWalk e rels")
  case (Inr st)
  then show ?thesis by blast
next
  case (Inl err)
  then have w: "Walk (schedule e) g (visitRelease g) (vertices g) [] (rels, []) = Inl err"
    by (simp add: chartDepWalk_def g r)
  from Walk_error [OF w dag chartGraph_closed [OF g]] obtain v t where
    "visitRelease g v t = Inl err" by blast
  from visitRelease_Inl [OF this] Inl show ?thesis by simp
qed

lemma chartDepWalk_total:
  assumes g: "chartGraph e rels = Inr g" and r: "Root g = Inr root"
    and dag: "acyclic (set (edges g))"
    and safe: "\<forall>i < length rels. DownEdges g i \<noteq> [] \<longrightarrow> rq_Dependencies (rels ! i) \<noteq> None"
  shows "\<exists>st. chartDepWalk e rels = Inr st"
proof -
  have "\<exists>st. Walk (schedule e) g (visitRelease g) (vertices g) [] (rels, []) = Inr st"
  proof (rule Walk_total [OF dag chartGraph_closed [OF g], where Q = "nilSafe rels"
        and V = "{..< length rels}"])
    show "nilSafe rels (rels, [])"
      by (simp add: nilSafe_def)
    show "set (vertices g) \<subseteq> {..< length rels}"
      by (auto simp: chartGraph_vertices [OF g])
    show "\<exists>t'. visitRelease g v t = Inr t' \<and> nilSafe rels t'"
      if "nilSafe rels t" "v \<in> {..< length rels}" for v t
      using that safe by (intro visitRelease_total) auto
  qed
  then show ?thesis
    by (simp add: chartDepWalk_def g r)
qed

lemma chartDepWalk_panic:
  assumes g: "chartGraph e rels = Inr g" and r: "Root g = Inr root"
    and dag: "acyclic (set (edges g))"
    and i: "i < length rels" "DownEdges g i \<noteq> []" "rq_Dependencies (rels ! i) = None"
  shows "chartDepWalk e rels = Inl (RuntimePanic ''assignment to entry in nil map'')"
proof -
  have "chartDepWalk e rels \<noteq> Inr st" for st
  proof
    assume "chartDepWalk e rels = Inr st"
    from chartDepWalk_Inr [OF this] g obtain
      inv: "chartWalkInv rels g (snd st) st" and all: "set (snd st) = {..< length rels}"
      by auto
    obtain store parsed where st: "st = (store, parsed)" by (cases st)
    from all i(1) have "i \<in> set parsed"
      by (simp add: st)
    with chartWalkInvD(1,4) [OF inv [unfolded st snd_conv]] i(1)
    have "augmented rels g i (store ! i)" by blast
    then obtain deps where "assignAll (rq_Dependencies (rels ! i)) (inferred rels g i) = Inr deps"
      unfolding augmented_def by blast
    moreover have "inferred rels g i \<noteq> []"
      using i(2) by (simp add: inferred_def)
    ultimately show False
      using i(3) by (simp add: assignAll_None)
  qed
  with chartDepWalk_cases [OF g r dag] show ?thesis by blast
qed

section \<open>The chart-time resolver: panics and order\<close>

lemma acyclic_empty: "acyclic {}"
  by (simp add: acyclic_def)

lemma brainFuckChartDepParse_Inl:
  "(brainFuckChartDepParse e projectParams = Inl err) = (chartDepWalk e (pp_Releases projectParams) = Inl err)"
  by (cases "chartDepWalk e (pp_Releases projectParams)")
     (simp_all add: brainFuckChartDepParse_def split: prod.splits)

lemma brainFuckChartDepParse_Inr:
  "(\<exists>out. brainFuckChartDepParse e projectParams = Inr out) =
     (\<exists>st. chartDepWalk e (pp_Releases projectParams) = Inr st)"
  by (cases "chartDepWalk e (pp_Releases projectParams)")
     (simp_all add: brainFuckChartDepParse_def split: prod.splits)

lemma DownEdges_chartGraph:
  assumes "chartGraph e rels = Inr g" and "i < length rels"
  shows "(DownEdges g i \<noteq> []) =
           (\<exists>subs s j. getAutoDependencies e (rq_RepoName (rels ! i)) (rq_ChartName (rels ! i))
                          (rq_ChartVersion (rels ! i)) = Inr subs
              \<and> s \<in> set subs \<and> projectParamsMap rels s = Some j
              \<and> \<not> hasKey (rq_Dependencies (rels ! i)) s)"
proof -
  have "(DownEdges g i \<noteq> []) = (\<exists>j. (i, j) \<in> set (edges g))"
    using set_DownEdges [of g i] by (cases "DownEdges g i") auto
  also have "\<dots> = (\<exists>subs s j. getAutoDependencies e (rq_RepoName (rels ! i)) (rq_ChartName (rels ! i))
                          (rq_ChartVersion (rels ! i)) = Inr subs
              \<and> s \<in> set subs \<and> projectParamsMap rels s = Some j
              \<and> \<not> hasKey (rq_Dependencies (rels ! i)) s)"
    unfolding chartGraph_edges [OF assms(1)] using assms(2) by blast
  finally show ?thesis .
qed

text \<open>
  Claim C10. The walk of brainFuckChartDepParse writes \<open>Dependencies[chartName] = name\<close>
  with no guard for the nil map, which the runtime resolver has. On a bundle whose
  inferred edges form an acyclic graph with a single root, the call panics with
  "assignment to entry in nil map" exactly when some release with a nil dependencies map
  has an inferred child, that is when its chart declares a subchart that is the chart of
  a release of the bundle and that it has not declared itself; and the call returns
  exactly when every release with an inferred child has a map that is not nil.
\<close>

theorem chart_nil_map_panic:
  assumes g: "chartGraph e (pp_Releases projectParams) = Inr g"
    and r: "Root g = Inr root"
    and dag: "acyclic (set (edges g))"
  shows "((brainFuckChartDepParse e projectParams =
             Inl (RuntimePanic ''assignment to entry in nil map''))
          = (\<exists>i < length (pp_Releases projectParams).
               DownEdges g i \<noteq> [] \<and> rq_Dependencies (pp_Releases projectParams ! i) = None))
       \<and> ((\<exists>out. brainFuckChartDepParse e projectParams = Inr out)
          = (\<forall>i < length (pp_Releases projectParams).
               DownEdges g i \<noteq> [] \<longrightarrow> rq_Dependencies (pp_Releases projectParams ! i) \<noteq> None))
       \<and> (\<forall>i < length (pp_Releases projectParams).
             (DownEdges g i \<noteq> []) =
               (\<exists>subs s j. getAutoDependencies e (rq_RepoName (pp_Releases projectParams ! i))
                              (rq_ChartName (pp_Releases projectParams ! i))
                              (rq_ChartVersion (pp_Releases projectParams ! i)) = Inr subs
                  \<and> s \<in> set subs \<and> projectParamsMap (pp_Releases projectParams) s = Some j
                  \<and> \<not> hasKey (rq_Dependencies (pp_Releases projectParams ! i)) s))"
proof -
  let ?rels = "pp_Releases projectParams"
  let ?panic = "chartDepWalk e ?rels = Inl (RuntimePanic ''assignment to entry in nil map'')"
  let ?bad = "\<exists>i < length ?rels. DownEdges g i \<noteq> [] \<and> rq_Dependencies (?rels ! i) = None"
  have bad_panic: "?panic" if "?bad"
    using that chartDepWalk_panic [OF g r dag] by blast
  have good_total: "\<exists>st. chartDepWalk e ?rels = Inr st" if "\<not> ?bad"
  proof (rule chartDepWalk_total [OF g r dag])
    show "\<forall>i < length ?rels. DownEdges g i \<noteq> [] \<longrightarrow> rq_Dependencies (?rels ! i) \<noteq> None"
      using that by auto
  qed
  have a: "?panic = ?bad"
  proof
    assume p: ?panic
    show ?bad
    proof (rule ccontr)
      assume "\<not> ?bad"
      from good_total [OF this] p show False by auto
    qed
  next
    assume ?bad
    then show ?panic by (rule bad_panic)
  qed
  have b': "(\<exists>st. chartDepWalk e ?rels = Inr st)
          = (\<forall>i < length ?rels. DownEdges g i \<noteq> [] \<longrightarrow> rq_Dependencies (?rels ! i) \<noteq> None)"
  proof
    assume t: "\<exists>st. chartDepWalk e ?rels = Inr st"
    show "\<forall>i < length ?rels. DownEdges g i \<noteq> [] \<longrightarrow> rq_Dependencies (?rels ! i) \<noteq> None"
    proof (intro allI impI notI)
      fix i
      assume "i < length ?rels" "DownEdges g i \<noteq> []" "rq_Dependencies (?rels ! i) = None"
      then have ?bad by blast
      from bad_panic [OF this] t show False by auto
    qed
  next
    assume "\<forall>i < length ?rels. DownEdges g i \<noteq> [] \<longrightarrow> rq_Dependencies (?rels ! i) \<noteq> None"
    then have "\<not> ?bad" by blast
    then show "\<exists>st. chartDepWalk e ?rels = Inr st" by (rule good_total)
  qed
  have c: "\<forall>i < length ?rels.
             (DownEdges g i \<noteq> []) =
               (\<exists>subs s j. getAutoDependencies e (rq_RepoName (?rels ! i)) (rq_ChartName (?rels ! i))
                              (rq_ChartVersion (?rels ! i)) = Inr subs
                  \<and> s \<in> set subs \<and> projectParamsMap ?rels s = Some j
                  \<and> \<not> hasKey (rq_Dependencies (?rels ! i)) s)"
    using DownEdges_chartGraph [OF g] by blast
  show ?thesis
    unfolding brainFuckChartDepParse_Inl brainFuckChartDepParse_Inr
    by (intro conjI) (rule a, rule b', rule c)
qed

theorem chart_nil_map_panic_witness:
  "chartGraph envS5 (pp_Releases \<lparr>pp_Releases = [releaseXNil, releaseY]\<rparr>) = Inr graphS5
   \<and> Root graphS5 = Inr 0
   \<and> acyclic (set (edges graphS5))
   \<and> DownEdges graphS5 0 = [1]
   \<and> rq_Dependencies releaseXNil = None
   \<and> brainFuckChartDepParse envS5 \<lparr>pp_Releases = [releaseXNil, releaseY]\<rparr> =
       Inl (RuntimePanic ''assignment to entry in nil map'')"
proof -
  have g: "chartGraph envS5 (pp_Releases \<lparr>pp_Releases = [releaseXNil, releaseY]\<rparr>) = Inr graphS5"
    by code_simp
  have r: "Root graphS5 = Inr 0"
    by code_simp
  have dag: "acyclic (set (edges graphS5))"
    by (simp add: graphS5_def acyclic_empty)
  have d: "DownEdges graphS5 0 = [1]"
    by code_simp
  have n: "rq_Dependencies releaseXNil = None"
    by (simp add: releaseXNil_def)
  have "\<exists>i < length (pp_Releases \<lparr>pp_Releases = [releaseXNil, releaseY]\<rparr>).
          DownEdges graphS5 i \<noteq> []
          \<and> rq_Dependencies (pp_Releases \<lparr>pp_Releases = [releaseXNil, releaseY]\<rparr> ! i) = None"
    using d n by (intro exI [of _ 0]) simp
  with chart_nil_map_panic [OF g r dag]
  have "brainFuckChartDepParse envS5 \<lparr>pp_Releases = [releaseXNil, releaseY]\<rparr> =
       Inl (RuntimePanic ''assignment to entry in nil map'')"
    by blast
  with g r dag d n show ?thesis by blast
qed

lemma chartGraph_edge:
  assumes "chartGraph e rels = Inr g" and "(a, b) \<in> set (edges g)"
  shows "a < length rels" and "b < length rels"
    and "projectParamsMap rels (rq_ChartName (rels ! b)) = Some b"
proof -
  from assms(2) have "\<exists>s. a < length rels \<and> projectParamsMap rels s = Some b"
    unfolding chartGraph_edges [OF assms(1)] by simp blast
  then obtain s where a: "a < length rels" and m: "projectParamsMap rels s = Some b"
    by blast
  from a show "a < length rels" .
  from projectParamsMap_Some(1) [OF m] show "b < length rels" .
  from projectParamsMap_Some(2) [OF m] m
  show "projectParamsMap rels (rq_ChartName (rels ! b)) = Some b" by simp
qed

lemma inferred_functional:
  assumes g: "chartGraph e rels = Inr g" and ab: "(a, b) \<in> set (edges g)"
  shows "(rq_ChartName (rels ! b), rq_Name (rels ! b)) \<in> set (inferred rels g a)"
    and "\<forall>(k', v') \<in> set (inferred rels g a).
           k' = rq_ChartName (rels ! b) \<longrightarrow> v' = rq_Name (rels ! b)"
proof -
  from ab have "b \<in> set (DownEdges g a)"
    by (simp add: set_DownEdges)
  then show "(rq_ChartName (rels ! b), rq_Name (rels ! b)) \<in> set (inferred rels g a)"
    unfolding inferred_def set_map by (rule imageI)
  show "\<forall>(k', v') \<in> set (inferred rels g a).
           k' = rq_ChartName (rels ! b) \<longrightarrow> v' = rq_Name (rels ! b)"
  proof (rule ballI)
    fix kv
    assume kv: "kv \<in> set (inferred rels g a)"
    then obtain c where c: "c \<in> set (DownEdges g a)"
      and kv': "kv = (rq_ChartName (rels ! c), rq_Name (rels ! c))"
      unfolding inferred_def set_map by (rule imageE)
    from c have "(a, c) \<in> set (edges g)"
      by (simp add: set_DownEdges)
    note mc = chartGraph_edge(3) [OF g this]
    note mb = chartGraph_edge(3) [OF g ab]
    have "rq_Name (rels ! c) = rq_Name (rels ! b)"
      if k: "rq_ChartName (rels ! c) = rq_ChartName (rels ! b)"
    proof -
      from mc have "projectParamsMap rels (rq_ChartName (rels ! b)) = Some c"
        unfolding k .
      with mb have "c = b" by (metis option.inject)
      then show ?thesis by (rule arg_cong)
    qed
    then show "case kv of (k', v') \<Rightarrow> k' = rq_ChartName (rels ! b) \<longrightarrow> v' = rq_Name (rels ! b)"
      unfolding kv' prod.case by (rule impI)
  qed
qed

text \<open>
  Claim C2, as amended. Take a bundle whose inferred edges (release A to the bundle's
  release B of a subchart that A's chart declares and A has not declared itself) form
  an acyclic graph with a single root, and in which every release with an inferred child
  has a dependencies map that is not nil. Then, whatever order the scheduler chooses
  among the ready vertices, brainFuckChartDepParse returns the releases of the bundle,
  each exactly once and changed in its dependencies map only, such that for every
  inferred edge from A to B the release B stands before A in the list and A's map sends
  B's chart name to B's release name. On the bundle of scenario S5, both maps empty but
  not nil, the result is [y, x] with x.dependencies["y"] = "y". The order says nothing
  about the releases that A names in entries it declared itself, and with a nil map on x
  the call does not return: see the counterexample after the witness.
\<close>

theorem chart_order_inferred:
  assumes g: "chartGraph e (pp_Releases projectParams) = Inr g"
    and r: "Root g = Inr root"
    and dag: "acyclic (set (edges g))"
    and safe: "\<forall>i < length (pp_Releases projectParams).
                 DownEdges g i \<noteq> [] \<longrightarrow> rq_Dependencies (pp_Releases projectParams ! i) \<noteq> None"
  shows "\<exists>out order.
           brainFuckChartDepParse e projectParams = Inr out
           \<and> distinct order \<and> set order = {..< length (pp_Releases projectParams)}
           \<and> length out = length order
           \<and> (\<forall>k < length order.
                 \<exists>deps. out ! k = (pp_Releases projectParams ! (order ! k))\<lparr>rq_Dependencies := deps\<rparr>)
           \<and> (\<forall>(a, b) \<in> set (edges g).
                 \<exists>ka kb. kb < ka \<and> ka < length order \<and> order ! ka = a \<and> order ! kb = b
                   \<and> lookup (rq_Dependencies (out ! ka)) (rq_ChartName (pp_Releases projectParams ! b))
                       = Some (rq_Name (pp_Releases projectParams ! b)))"
proof -
  let ?rels = "pp_Releases projectParams"
  from chartDepWalk_total [OF g r dag safe] obtain st where w: "chartDepWalk e ?rels = Inr st"
    by blast
  obtain store order where st: "st = (store, order)" by (cases st)
  from chartDepWalk_Inr [OF w] g have inv: "chartWalkInv ?rels g order (store, order)"
    and all: "set order = {..< length ?rels}"
    by (auto simp: st)
  note d = chartWalkInvD [OF inv]
  define out where "out = map (\<lambda>v. store ! v) order"
  have res: "brainFuckChartDepParse e projectParams = Inr out"
    by (simp add: brainFuckChartDepParse_def w st out_def)
  have len: "length out = length order"
    by (simp add: out_def)
  have aug: "augmented ?rels g (order ! k) (out ! k)" if k: "k < length order" for k
  proof -
    from k have m: "order ! k \<in> set order" by simp
    with all have "order ! k < length ?rels" by auto
    from d(4) [OF this m] k show ?thesis by (simp add: out_def)
  qed
  have shape: "\<forall>k < length order.
                 \<exists>deps. out ! k = (?rels ! (order ! k))\<lparr>rq_Dependencies := deps\<rparr>"
    using aug unfolding augmented_def by blast
  have edge: "\<exists>ka kb. kb < ka \<and> ka < length order \<and> order ! ka = a \<and> order ! kb = b
                   \<and> lookup (rq_Dependencies (out ! ka)) (rq_ChartName (?rels ! b))
                       = Some (rq_Name (?rels ! b))"
    if ab: "(a, b) \<in> set (edges g)" for a b
  proof -
    from chartGraph_edge(1) [OF g ab] all have "a \<in> set order" by auto
    then obtain ka where ka: "ka < length order" "order ! ka = a"
      by (auto simp: in_set_conv_nth)
    from ab have "b \<in> set (DownEdges g a)"
      by (simp add: set_DownEdges)
    with d(6) [OF ka(1)] ka(2) have "b \<in> set (take ka order)" by auto
    then obtain kb where kb: "kb < length (take ka order)" "take ka order ! kb = b"
      by (auto simp: in_set_conv_nth)
    then have kb': "kb < ka" "order ! kb = b"
      by simp_all
    from aug [OF ka(1)] obtain deps where
      a: "assignAll (rq_Dependencies (?rels ! a)) (inferred ?rels g a) = Inr deps"
      and o: "out ! ka = (?rels ! a)\<lparr>rq_Dependencies := deps\<rparr>"
      unfolding augmented_def ka(2) by blast
    from assignAll_written [OF a inferred_functional [OF g ab]]
    have "lookup (rq_Dependencies (out ! ka)) (rq_ChartName (?rels ! b)) = Some (rq_Name (?rels ! b))"
      by (simp add: o)
    with ka kb' show ?thesis by blast
  qed
  then have edges: "\<forall>(a, b) \<in> set (edges g).
                 \<exists>ka kb. kb < ka \<and> ka < length order \<and> order ! ka = a \<and> order ! kb = b
                   \<and> lookup (rq_Dependencies (out ! ka)) (rq_ChartName (?rels ! b))
                       = Some (rq_Name (?rels ! b))"
    by blast
  show ?thesis
    by (intro exI [of _ out] exI [of _ order] conjI) (fact res d(2) all len shape edges)+
qed

theorem chart_order_inferred_witness:
  "chartGraph envS5 (pp_Releases paramsS5) = Inr graphS5
   \<and> Root graphS5 = Inr 0
   \<and> acyclic (set (edges graphS5))
   \<and> brainFuckChartDepParse envS5 paramsS5 = Inr [releaseY, releaseXWired]
   \<and> lookup (rq_Dependencies releaseXWired) ''y'' = Some ''y''"
proof -
  have g: "chartGraph envS5 (pp_Releases paramsS5) = Inr graphS5"
    by code_simp
  have r: "Root graphS5 = Inr 0"
    by code_simp
  have dag: "acyclic (set (edges graphS5))"
    by (simp add: graphS5_def acyclic_empty)
  have safe: "\<forall>i < length (pp_Releases paramsS5).
                 DownEdges graphS5 i \<noteq> [] \<longrightarrow> rq_Dependencies (pp_Releases paramsS5 ! i) \<noteq> None"
    by (simp add: paramsS5_def releaseX_def releaseY_def nth_Cons')
  have ev: "brainFuckChartDepParse envS5 paramsS5 = Inr [releaseY, releaseXWired]"
    by code_simp
  from chart_order_inferred [OF g r dag safe] obtain out order where
    res: "brainFuckChartDepParse envS5 paramsS5 = Inr out"
    and len: "length out = length order"
    and edges: "\<forall>(a, b) \<in> set (edges graphS5).
                 \<exists>ka kb. kb < ka \<and> ka < length order \<and> order ! ka = a \<and> order ! kb = b
                   \<and> lookup (rq_Dependencies (out ! ka)) (rq_ChartName (pp_Releases paramsS5 ! b))
                       = Some (rq_Name (pp_Releases paramsS5 ! b))"
    by blast
  from res ev have out: "out = [releaseY, releaseXWired]"
    by simp
  from edges obtain ka kb where k: "kb < ka" "ka < length order"
    and l: "lookup (rq_Dependencies (out ! ka)) (rq_ChartName (pp_Releases paramsS5 ! 1))
              = Some (rq_Name (pp_Releases paramsS5 ! 1))"
    by (auto simp: graphS5_def)
  from k len out have "ka = 1"
    by simp
  with l out have "lookup (rq_Dependencies releaseXWired) ''y'' = Some ''y''"
    by (simp add: paramsS5_def releaseY_def)
  with g r dag ev show ?thesis
    by simp
qed

theorem chart_order_declared_counterexample:
  "chartGraph envS5 (pp_Releases paramsBack) = Inr graphS5
   \<and> Root graphS5 = Inr 0
   \<and> acyclic (set (edges graphS5))
   \<and> brainFuckChartDepParse envS5 paramsBack = Inr [releaseYBack, releaseXWired]
   \<and> brainFuckChartDepParse (envS5\<lparr>schedule := (\<lambda>ready. 1)\<rparr>) paramsBack =
       Inr [releaseYBack, releaseXWired]
   \<and> rq_Name releaseXWired \<in> set (mapValues (rq_Dependencies releaseYBack))
   \<and> chartGraph envS5 [releaseXNil, releaseY] = Inr graphS5
   \<and> brainFuckChartDepParse envS5 \<lparr>pp_Releases = [releaseXNil, releaseY]\<rparr> =
       Inl (RuntimePanic ''assignment to entry in nil map'')"
proof -
  have "acyclic (set (edges graphS5))"
    by (simp add: graphS5_def acyclic_empty)
  moreover have "chartGraph envS5 (pp_Releases paramsBack) = Inr graphS5 \<and> Root graphS5 = Inr 0"
    by code_simp
  moreover have "brainFuckChartDepParse envS5 paramsBack = Inr [releaseYBack, releaseXWired]"
    by code_simp
  moreover have "brainFuckChartDepParse (envS5\<lparr>schedule := (\<lambda>ready. 1)\<rparr>) paramsBack =
       Inr [releaseYBack, releaseXWired]"
    by code_simp
  moreover have "rq_Name releaseXWired \<in> set (mapValues (rq_Dependencies releaseYBack))"
    by code_simp
  moreover have "chartGraph envS5 [releaseXNil, releaseY] = Inr graphS5"
    by code_simp
  moreover have "brainFuckChartDepParse envS5 \<lparr>pp_Releases = [releaseXNil, releaseY]\<rparr> =
       Inl (RuntimePanic ''assignment to entry in nil map'')"
    by code_simp
  ultimately show ?thesis by simp
qed

end
